theory Spec2Isabelle
  imports Main
begin

section \<open>Bucket storage service: data model\<close>

text \<open>
  The development embeds the storage engine of \<^verbatim>\<open>app/main.py\<close> and the quota ledger of
  \<^verbatim>\<open>app/auth.py\<close>. A Python \<^verbatim>\<open>str\<close> is a \<^typ>\<open>string\<close> whose characters are code
  points below 256; a \<^verbatim>\<open>bytes\<close> value is a list of 8-bit characters. Every ObjectId that
  the database generates is a natural number taken from a counter; the \<^verbatim>\<open>_id\<close> of the
  authenticated user is represented by the string that \<^verbatim>\<open>str(user_id)\<close> yields
  (24 lower-case hexadecimal digits), which is the only form in which the engine uses it
  apart from equality tests.
\<close>

type_synonym bytes = "char list"

record bucket_doc =
  b_id :: nat
  b_name :: string
  b_description :: "string option"
  b_user_id :: string
  b_created_at :: string
  b_file_count :: int
  b_total_size :: int

record file_doc =
  f_id :: nat
  f_filename :: string
  f_bucket_id :: nat
  f_bucket_name :: string
  f_user_id :: string
  f_size :: int
  f_content_type :: string
  f_uploaded_at :: string
  f_file_path :: string

subsection \<open>The file system under the storage root\<close>

text \<open>
  The disk is a map from canonical absolute paths (the list of names from the root) to
  nodes. The root directory always exists. There are no symbolic links: the engine never
  creates one.
\<close>

datatype node = Dir | File bytes

type_synonym path = "string list"
type_synonym filesystem = "path \<Rightarrow> node option"

record state =
  buckets_collection :: "bucket_doc list"
  files_collection :: "file_doc list"
  disk :: filesystem
  next_oid :: nat

definition is_dir :: "filesystem \<Rightarrow> path \<Rightarrow> bool" where
  "is_dir fs p = (p = [] \<or> fs p = Some Dir)"

definition node_at :: "filesystem \<Rightarrow> path \<Rightarrow> node option" where
  "node_at fs p = (if p = [] then Some Dir else fs p)"

text \<open>\<^verbatim>\<open>s.split("/")\<close>: the components of a path string.\<close>

fun split_sep :: "string \<Rightarrow> string list" where
  "split_sep [] = [[]]"
| "split_sep (c # cs) =
     (if c = CHR ''/'' then [] # split_sep cs
      else (case split_sep cs of [] \<Rightarrow> [[c]] | w # ws \<Rightarrow> (c # w) # ws))"

text \<open>
  Path resolution as the kernel does it for an absolute path: every component is looked
  up in a directory that exists; an empty component and \<^verbatim>\<open>.\<close> stay, \<^verbatim>\<open>..\<close> goes to the
  parent. The last name need not exist. \<open>None\<close> is ENOENT or ENOTDIR.
\<close>

fun walk :: "filesystem \<Rightarrow> path \<Rightarrow> string list \<Rightarrow> path option" where
  "walk fs cur [] = Some cur"
| "walk fs cur (c # cs) =
     (if \<not> is_dir fs cur then None
      else if c = [] \<or> c = ''.'' then walk fs cur cs
      else if c = ''..'' then walk fs (butlast cur) cs
      else walk fs (cur @ [c]) cs)"

definition resolve :: "filesystem \<Rightarrow> string \<Rightarrow> path option" where
  "resolve fs p = (if CHR 0x00 \<in> set p then None else walk fs [] (split_sep p))"

text \<open>\<^verbatim>\<open>os.path.exists\<close>: false on every error of the lookup.\<close>

definition os_path_exists :: "filesystem \<Rightarrow> string \<Rightarrow> bool" where
  "os_path_exists fs p =
     (case resolve fs p of None \<Rightarrow> False | Some q \<Rightarrow> node_at fs q \<noteq> None)"

text \<open>
  \<^verbatim>\<open>open(p, "wb")\<close>: the canonical path of the file that is created or truncated, or
  \<open>None\<close> when the call raises (the lookup fails, or the path is a directory).
\<close>

definition open_wb :: "filesystem \<Rightarrow> string \<Rightarrow> path option" where
  "open_wb fs p =
     (case resolve fs p of
        None \<Rightarrow> None
      | Some q \<Rightarrow> if is_dir fs q then None else Some q)"

text \<open>\<^verbatim>\<open>os.remove\<close>: removes a regular file, raises on a directory or a missing path.\<close>

definition os_remove :: "filesystem \<Rightarrow> string \<Rightarrow> filesystem option" where
  "os_remove fs p =
     (case resolve fs p of
        None \<Rightarrow> None
      | Some q \<Rightarrow> (case node_at fs q of Some (File _) \<Rightarrow> Some (fs(q := None)) | _ \<Rightarrow> None))"

text \<open>
  \<^verbatim>\<open>shutil.rmtree\<close>: removes a directory with everything below it; raises on a regular
  file and on a missing path, and then removes nothing.
\<close>

definition below :: "path \<Rightarrow> path \<Rightarrow> bool" where
  "below q r = (take (length q) r = q)"

definition rmtree :: "filesystem \<Rightarrow> string \<Rightarrow> filesystem option" where
  "rmtree fs p =
     (case resolve fs p of
        None \<Rightarrow> None
      | Some q \<Rightarrow>
          (case node_at fs q of
             Some Dir \<Rightarrow> Some (\<lambda>r. if below q r then None else fs r)
           | _ \<Rightarrow> None))"

text \<open>
  \<^verbatim>\<open>os.makedirs(p, exist_ok=False)\<close>: \<^verbatim>\<open>mkdir\<close> raises FileExistsError when the path
  exists; otherwise every missing directory on the way is created, and the call raises
  (creating nothing) when a name on the way is a regular file.
\<close>

fun mk_chain :: "filesystem \<Rightarrow> path \<Rightarrow> string list \<Rightarrow> filesystem option" where
  "mk_chain fs cur [] = Some fs"
| "mk_chain fs cur (c # cs) =
     (if c = [] \<or> c = ''.'' then mk_chain fs cur cs
      else if c = ''..'' then mk_chain fs (butlast cur) cs
      else (case node_at fs (cur @ [c]) of
              None \<Rightarrow> mk_chain (fs(cur @ [c] \<mapsto> Dir)) (cur @ [c]) cs
            | Some Dir \<Rightarrow> mk_chain fs (cur @ [c]) cs
            | Some (File _) \<Rightarrow> None))"

definition os_makedirs :: "filesystem \<Rightarrow> string \<Rightarrow> filesystem option" where
  "os_makedirs fs p =
     (if CHR 0x00 \<in> set p \<or> os_path_exists fs p then None
      else mk_chain fs [] (split_sep p))"

text \<open>\<^verbatim>\<open>os.path.join\<close> of posixpath: an absolute component discards what precedes it.\<close>

definition join2 :: "string \<Rightarrow> string \<Rightarrow> string" where
  "join2 p b =
     (if b \<noteq> [] \<and> hd b = CHR ''/'' then b
      else if p = [] \<or> last p = CHR ''/'' then p @ b
      else p @ ''/'' @ b)"

definition os_path_join :: "string \<Rightarrow> string list \<Rightarrow> string" where
  "os_path_join a ps = foldl join2 a ps"

subsection \<open>Strings\<close>

text \<open>
  \<^verbatim>\<open>str.isalnum\<close>, \<^verbatim>\<open>str.isspace\<close> on code points below 256 (the Unicode database of
  CPython 3), \<^verbatim>\<open>str.strip()\<close> and \<^verbatim>\<open>str.replace(c, "")\<close> for a one-character \<^verbatim>\<open>c\<close>.
\<close>

definition isalnum_char :: "char \<Rightarrow> bool" where
  "isalnum_char c =
     (let n = (of_char c :: nat) in
        (48 \<le> n \<and> n \<le> 57) \<or> (65 \<le> n \<and> n \<le> 90) \<or> (97 \<le> n \<and> n \<le> 122) \<or>
        n = 170 \<or> n = 178 \<or> n = 179 \<or> n = 181 \<or> n = 185 \<or> n = 186 \<or>
        (188 \<le> n \<and> n \<le> 190) \<or> (192 \<le> n \<and> n \<le> 214) \<or>
        (216 \<le> n \<and> n \<le> 246) \<or> 248 \<le> n)"

definition isalnum :: "string \<Rightarrow> bool" where
  "isalnum s = (s \<noteq> [] \<and> list_all isalnum_char s)"

definition isspace_char :: "char \<Rightarrow> bool" where
  "isspace_char c =
     (let n = (of_char c :: nat) in
        (9 \<le> n \<and> n \<le> 13) \<or> (28 \<le> n \<and> n \<le> 32) \<or> n = 133 \<or> n = 160)"

definition strip :: "string \<Rightarrow> string" where
  "strip s = rev (dropWhile isspace_char (rev (dropWhile isspace_char s)))"

definition remove_char :: "char \<Rightarrow> string \<Rightarrow> string" where
  "remove_char c s = filter (\<lambda>d. d \<noteq> c) s"

subsection \<open>Collections\<close>

text \<open>
  A collection is the list of its documents in insertion order. \<^verbatim>\<open>find_one\<close> is
  \<^const>\<open>find\<close>; \<^verbatim>\<open>delete_one\<close> and \<^verbatim>\<open>update_one\<close> act on the first match,
  \<^verbatim>\<open>delete_many\<close> on all.
\<close>

fun delete_one :: "('a \<Rightarrow> bool) \<Rightarrow> 'a list \<Rightarrow> 'a list" where
  "delete_one P [] = []"
| "delete_one P (x # xs) = (if P x then xs else x # delete_one P xs)"

fun update_one :: "('a \<Rightarrow> bool) \<Rightarrow> ('a \<Rightarrow> 'a) \<Rightarrow> 'a list \<Rightarrow> 'a list" where
  "update_one P g [] = []"
| "update_one P g (x # xs) = (if P x then g x # xs else x # update_one P g xs)"

definition delete_many :: "('a \<Rightarrow> bool) \<Rightarrow> 'a list \<Rightarrow> 'a list" where
  "delete_many P xs = filter (\<lambda>x. \<not> P x) xs"

definition inc_stats :: "nat \<Rightarrow> int \<Rightarrow> int \<Rightarrow> bucket_doc list \<Rightarrow> bucket_doc list" where
  "inc_stats bid dc ds bs =
     update_one (\<lambda>b. b_id b = bid)
       (\<lambda>b. b\<lparr>b_file_count := b_file_count b + dc, b_total_size := b_total_size b + ds\<rparr>) bs"

definition find_bucket :: "state \<Rightarrow> string \<Rightarrow> string \<Rightarrow> bucket_doc option" where
  "find_bucket s bucket_name user_id =
     find (\<lambda>b. b_name b = bucket_name \<and> b_user_id b = user_id) (buckets_collection s)"

definition find_file :: "state \<Rightarrow> nat \<Rightarrow> string \<Rightarrow> file_doc option" where
  "find_file s bucket_id filename =
     find (\<lambda>f. f_bucket_id f = bucket_id \<and> f_filename f = filename) (files_collection s)"

section \<open>Quota ledger (app/auth.py)\<close>

definition STORAGE_LIMIT_GB :: int where
  "STORAGE_LIMIT_GB = 1"

definition STORAGE_LIMIT_BYTES :: int where
  "STORAGE_LIMIT_BYTES = STORAGE_LIMIT_GB * 1024 * 1024 * 1024"

definition get_user_storage_usage :: "state \<Rightarrow> string \<Rightarrow> int" where
  "get_user_storage_usage s user_id =
     (case filter (\<lambda>f. f_user_id f = user_id) (files_collection s) of
        [] \<Rightarrow> 0
      | fs \<Rightarrow> sum_list (map f_size fs))"

definition check_storage_limit :: "state \<Rightarrow> string \<Rightarrow> int \<Rightarrow> bool" where
  "check_storage_limit s user_id file_size =
     (get_user_storage_usage s user_id + file_size \<le> STORAGE_LIMIT_BYTES)"

section \<open>Storage engine (app/main.py)\<close>

definition STORAGE_PATH :: string where
  "STORAGE_PATH = ''/app/storage''"

text \<open>
  Every \<^verbatim>\<open>raise HTTPException\<close> of the engine is a constructor; \<open>InternalServerError\<close>
  is an exception that leaves the handler uncaught (the framework answers 500).
\<close>

datatype error =
    BucketNameRequired
  | BucketNameInvalid
  | BucketAlreadyExists
  | ErrorCreatingBucket
  | BucketNotFound
  | ErrorDeletingBucket
  | StorageLimitExceeded
  | FileAlreadyExists
  | ErrorUploadingFile
  | FileNotFound
  | FileNotFoundOnDisk
  | ErrorDeletingFile
  | InternalServerError


text \<open>
  A call of a backing store can raise for reasons outside the state (a lost connection, a
  full disk). An operation is run with at most one such fault; a fault that names a call
  the operation does not make has no effect. \<open>DiskRaises\<close> is the operation's own disk
  call (\<^verbatim>\<open>makedirs\<close>, \<^verbatim>\<open>open\<close>, \<^verbatim>\<open>rmtree\<close>, \<^verbatim>\<open>remove\<close> in the \<^verbatim>\<open>try\<close> block) raising
  without effect; \<open>PartialWrite k\<close> is \<^verbatim>\<open>buffer.write\<close> raising after \<open>k\<close> bytes reached
  the file. The reads and the calls inside an \<^verbatim>\<open>except\<close> handler are not made to fail.
\<close>

datatype fault =
    NoFault
  | DiskRaises
  | PartialWrite nat
  | InsertRaises
  | UpdateRaises
  | DeleteManyRaises
  | DeleteOneRaises

definition bucket_path_of :: "string \<Rightarrow> string \<Rightarrow> string" where
  "bucket_path_of user_id name = os_path_join STORAGE_PATH [user_id, name]"

subsection \<open>create_bucket\<close>

definition create_bucket_except :: "string \<Rightarrow> state \<Rightarrow> (error + bucket_doc) \<times> state" where
  "create_bucket_except bucket_path s =
     (if os_path_exists (disk s) bucket_path then
        (case rmtree (disk s) bucket_path of
           None \<Rightarrow> (Inl InternalServerError, s)
         | Some fs' \<Rightarrow> (Inl ErrorCreatingBucket, s\<lparr>disk := fs'\<rparr>))
      else (Inl ErrorCreatingBucket, s))"

definition create_bucket ::
  "fault \<Rightarrow> string \<Rightarrow> string option \<Rightarrow> string \<Rightarrow> string \<Rightarrow> state \<Rightarrow> (error + bucket_doc) \<times> state"
where
  "create_bucket flt name description now user_id s =
     (if name = [] \<or> strip name = [] then (Inl BucketNameRequired, s)
      else if \<not> isalnum (remove_char CHR ''_'' (remove_char CHR ''-'' name))
      then (Inl BucketNameInvalid, s)
      else
        let bucket_path = bucket_path_of user_id name in
        (case find_bucket s name user_id of
           Some existing \<Rightarrow> (Inl BucketAlreadyExists, s)
         | None \<Rightarrow>
            (case (if flt = DiskRaises then None else os_makedirs (disk s) bucket_path) of
               None \<Rightarrow> create_bucket_except bucket_path s
             | Some fs1 \<Rightarrow>
                 if flt = InsertRaises then create_bucket_except bucket_path (s\<lparr>disk := fs1\<rparr>)
                 else
                   let bucket_doc = \<lparr>b_id = next_oid s, b_name = name,
                         b_description = description, b_user_id = user_id,
                         b_created_at = now, b_file_count = 0, b_total_size = 0\<rparr>
                   in (Inr bucket_doc,
                       s\<lparr>disk := fs1,
                         buckets_collection := buckets_collection s @ [bucket_doc],
                         next_oid := next_oid s + 1\<rparr>))))"

subsection \<open>delete_bucket\<close>

definition delete_bucket_doc :: "fault \<Rightarrow> nat \<Rightarrow> state \<Rightarrow> (error + unit) \<times> state" where
  "delete_bucket_doc flt bucket_id s =
     (if flt = DeleteOneRaises then (Inl ErrorDeletingBucket, s)
      else (Inr (),
            s\<lparr>buckets_collection :=
                delete_one (\<lambda>b. b_id b = bucket_id) (buckets_collection s)\<rparr>))"

definition delete_bucket :: "fault \<Rightarrow> string \<Rightarrow> string \<Rightarrow> state \<Rightarrow> (error + unit) \<times> state" where
  "delete_bucket flt bucket_name user_id s =
     (case find_bucket s bucket_name user_id of
        None \<Rightarrow> (Inl BucketNotFound, s)
      | Some bucket \<Rightarrow>
          let bucket_id = b_id bucket;
              bucket_path = bucket_path_of user_id bucket_name
          in
          if flt = DeleteManyRaises then (Inl ErrorDeletingBucket, s)
          else
            let s1 = s\<lparr>files_collection :=
                        delete_many (\<lambda>f. f_bucket_id f = bucket_id) (files_collection s)\<rparr>
            in
            if os_path_exists (disk s1) bucket_path then
              (case (if flt = DiskRaises then None else rmtree (disk s1) bucket_path) of
                 None \<Rightarrow> (Inl ErrorDeletingBucket, s1)
               | Some fs2 \<Rightarrow> delete_bucket_doc flt bucket_id (s1\<lparr>disk := fs2\<rparr>))
            else delete_bucket_doc flt bucket_id s1)"

subsection \<open>upload_file\<close>

text \<open>
  The \<^verbatim>\<open>with open(...) as buffer: buffer.write(file_content)\<close> block: \<open>Inr\<close> the disk
  after a complete write, \<open>Inl\<close> the disk left behind when the block raises.
\<close>

definition write_file :: "fault \<Rightarrow> filesystem \<Rightarrow> string \<Rightarrow> bytes \<Rightarrow> filesystem + filesystem" where
  "write_file flt fs file_path file_content =
     (if flt = DiskRaises then Inl fs
      else
        (case open_wb fs file_path of
           None \<Rightarrow> Inl fs
         | Some q \<Rightarrow>
            (case flt of
               PartialWrite k \<Rightarrow> Inl (fs(q \<mapsto> File (take k file_content)))
             | _ \<Rightarrow> Inr (fs(q \<mapsto> File file_content)))))"

definition upload_file_except :: "string \<Rightarrow> state \<Rightarrow> (error + file_doc) \<times> state" where
  "upload_file_except file_path s =
     (if os_path_exists (disk s) file_path then
        (case os_remove (disk s) file_path of
           None \<Rightarrow> (Inl InternalServerError, s)
         | Some fs' \<Rightarrow> (Inl ErrorUploadingFile, s\<lparr>disk := fs'\<rparr>))
      else (Inl ErrorUploadingFile, s))"

definition upload_file ::
  "fault \<Rightarrow> string \<Rightarrow> string \<Rightarrow> bytes \<Rightarrow> string option \<Rightarrow> string \<Rightarrow> string \<Rightarrow> state
     \<Rightarrow> (error + file_doc) \<times> state"
where
  "upload_file flt bucket_name filename file_content content_type now user_id s =
     (case find_bucket s bucket_name user_id of
        None \<Rightarrow> (Inl BucketNotFound, s)
      | Some bucket \<Rightarrow>
          let file_size = int (length file_content) in
          if \<not> check_storage_limit s user_id file_size then (Inl StorageLimitExceeded, s)
          else
            let bucket_id = b_id bucket;
                bucket_path = bucket_path_of user_id bucket_name;
                file_path = os_path_join bucket_path [filename]
            in
            if os_path_exists (disk s) file_path then (Inl FileAlreadyExists, s)
            else
              (case write_file flt (disk s) file_path file_content of
                 Inl fs1 \<Rightarrow> upload_file_except file_path (s\<lparr>disk := fs1\<rparr>)
               | Inr fs1 \<Rightarrow>
                   if flt = InsertRaises then upload_file_except file_path (s\<lparr>disk := fs1\<rparr>)
                   else
                     let file_doc = \<lparr>f_id = next_oid s, f_filename = filename,
                           f_bucket_id = bucket_id, f_bucket_name = bucket_name,
                           f_user_id = user_id, f_size = file_size,
                           f_content_type =
                             (case content_type of
                                None \<Rightarrow> ''application/octet-stream''
                              | Some t \<Rightarrow> if t = [] then ''application/octet-stream'' else t),
                           f_uploaded_at = now, f_file_path = file_path\<rparr>;
                         s2 = s\<lparr>disk := fs1,
                                files_collection := files_collection s @ [file_doc],
                                next_oid := next_oid s + 1\<rparr>
                     in
                     if flt = UpdateRaises then upload_file_except file_path s2
                     else
                       (Inr file_doc,
                        s2\<lparr>buckets_collection :=
                             inc_stats bucket_id 1 file_size (buckets_collection s2)\<rparr>)))"

subsection \<open>download_file\<close>

text \<open>
  \<^verbatim>\<open>file_doc.get("file_path") or os.path.join(...)\<close>: the recorded path unless it is
  empty.
\<close>

definition recorded_path :: "file_doc \<Rightarrow> string \<Rightarrow> string \<Rightarrow> string \<Rightarrow> string" where
  "recorded_path file_doc user_id bucket_name filename =
     (if f_file_path file_doc \<noteq> [] then f_file_path file_doc
      else os_path_join STORAGE_PATH [user_id, bucket_name, filename])"

text \<open>
  The result is the body that \<^verbatim>\<open>FileResponse\<close> streams (the content of the file at the
  path), with the download name and the media type.
\<close>

definition download_file ::
  "string \<Rightarrow> string \<Rightarrow> string \<Rightarrow> state \<Rightarrow> error + (bytes \<times> string \<times> string)"
where
  "download_file bucket_name filename user_id s =
     (case find_bucket s bucket_name user_id of
        None \<Rightarrow> Inl BucketNotFound
      | Some bucket \<Rightarrow>
         (case find_file s (b_id bucket) filename of
            None \<Rightarrow> Inl FileNotFound
          | Some file_doc \<Rightarrow>
              let file_path = recorded_path file_doc user_id bucket_name filename in
              if \<not> os_path_exists (disk s) file_path then Inl FileNotFoundOnDisk
              else
                (case resolve (disk s) file_path of
                   None \<Rightarrow> Inl InternalServerError
                 | Some q \<Rightarrow>
                    (case node_at (disk s) q of
                       Some (File body) \<Rightarrow> Inr (body, filename, f_content_type file_doc)
                     | _ \<Rightarrow> Inl InternalServerError))))"

subsection \<open>delete_file\<close>

text \<open>
  \<^verbatim>\<open>os.path.getsize\<close> of a regular file is the length of its content. On a directory
  the value depends on the file system; the engine calls it only just before
  \<^verbatim>\<open>os.remove\<close>, which raises on a directory, so that value is never used and the result
  is \<open>None\<close> there.
\<close>

definition os_path_getsize :: "filesystem \<Rightarrow> string \<Rightarrow> int option" where
  "os_path_getsize fs p =
     (case resolve fs p of
        None \<Rightarrow> None
      | Some q \<Rightarrow> (case node_at fs q of Some (File body) \<Rightarrow> Some (int (length body)) | _ \<Rightarrow> None))"

text \<open>
  The first statement of the \<^verbatim>\<open>try\<close> block: \<open>Some (file_size, disk)\<close>, or \<open>None\<close> when
  \<^verbatim>\<open>os.remove\<close> raises.
\<close>

definition measure_and_remove ::
  "fault \<Rightarrow> filesystem \<Rightarrow> string \<Rightarrow> file_doc \<Rightarrow> (int \<times> filesystem) option"
where
  "measure_and_remove flt fs file_path file_doc =
     (if os_path_exists fs file_path then
        (case os_path_getsize fs file_path of
           None \<Rightarrow> None
         | Some file_size \<Rightarrow>
             if flt = DiskRaises then None
             else map_option (\<lambda>fs'. (file_size, fs')) (os_remove fs file_path))
      else Some (f_size file_doc, fs))"

definition delete_file ::
  "fault \<Rightarrow> string \<Rightarrow> string \<Rightarrow> string \<Rightarrow> state \<Rightarrow> (error + unit) \<times> state"
where
  "delete_file flt bucket_name filename user_id s =
     (case find_bucket s bucket_name user_id of
        None \<Rightarrow> (Inl BucketNotFound, s)
      | Some bucket \<Rightarrow>
          let bucket_id = b_id bucket in
          (case find_file s bucket_id filename of
             None \<Rightarrow> (Inl FileNotFound, s)
           | Some file_doc \<Rightarrow>
               let file_path = recorded_path file_doc user_id bucket_name filename in
               (case measure_and_remove flt (disk s) file_path file_doc of
                  None \<Rightarrow> (Inl ErrorDeletingFile, s)
                | Some (file_size, fs1) \<Rightarrow>
                    if flt = DeleteOneRaises then (Inl ErrorDeletingFile, s\<lparr>disk := fs1\<rparr>)
                    else
                      let s2 = s\<lparr>disk := fs1,
                                 files_collection :=
                                   delete_one (\<lambda>f. f_id f = f_id file_doc) (files_collection s)\<rparr>
                      in
                      if flt = UpdateRaises then (Inl ErrorDeletingFile, s2)
                      else
                        (Inr (),
                         s2\<lparr>buckets_collection :=
                              inc_stats bucket_id (- 1) (- file_size) (buckets_collection s2)\<rparr>))))"

subsection \<open>The service after start-up\<close>

text \<open>
  At import the module creates the storage root (\<^verbatim>\<open>Path(STORAGE_PATH).mkdir(parents=True,
  exist_ok=True)\<close>); the collections are empty.
\<close>

definition init_disk :: filesystem where
  "init_disk = (\<lambda>p. if p = [''app''] \<or> p = [''app'', ''storage''] then Some Dir else None)"

definition init_state :: state where
  "init_state = \<lparr>buckets_collection = [], files_collection = [], disk = init_disk, next_oid = 0\<rparr>"

subsection \<open>Scenario states\<close>

text \<open>Two owners, and states reached from the initial one by the operations above.\<close>

definition alice :: string where
  "alice = ''64b7f0c2a1d3e4f5a6b7c8d9''"

definition bob :: string where
  "bob = ''64b7f0c2a1d3e4f5a6b7c8da''"

definition st_a :: state where
  "st_a = snd (create_bucket NoFault ''a'' None ''t0'' alice init_state)"

text \<open>A state in which the owner's five-byte upload does not fit: one record of 1 GiB.\<close>

definition st_full :: state where
  "st_full = st_a\<lparr>files_collection :=
     [\<lparr>f_id = 1, f_filename = ''big'', f_bucket_id = 0, f_bucket_name = ''a'',
       f_user_id = alice, f_size = 1073741824,
       f_content_type = ''application/octet-stream'', f_uploaded_at = ''t1'',
       f_file_path = ''/app/storage/64b7f0c2a1d3e4f5a6b7c8d9/a/big''\<rparr>]\<rparr>"

text \<open>
  The owner creates a second bucket, uploads into the first one under a file name that is an
  absolute path into the second, deletes the second bucket, creates it again and uploads
  three bytes under the name \<^verbatim>\<open>x\<close>.
\<close>

definition st_ab :: state where
  "st_ab = snd (create_bucket NoFault ''b'' None ''t0'' alice st_a)"
definition fn_alias :: string where
  "fn_alias = ''/app/storage/64b7f0c2a1d3e4f5a6b7c8d9/b/x''"
definition st_alias :: state where
  "st_alias = snd (upload_file NoFault ''a'' fn_alias ''hello'' None ''t1'' alice st_ab)"
definition st_gone :: state where
  "st_gone = snd (delete_bucket NoFault ''b'' alice st_alias)"
definition st_b2 :: state where
  "st_b2 = snd (create_bucket NoFault ''b'' None ''t2'' alice st_gone)"
definition st_over :: state where
  "st_over = snd (upload_file NoFault ''b'' ''x'' ''abc'' None ''t3'' alice st_b2)"

text \<open>A second owner creates a bucket of his own.\<close>

definition st_bob :: state where
  "st_bob = snd (create_bucket NoFault ''b'' None ''t0'' bob st_a)"

subsection \<open>The error taxonomy and the name pattern of the specification\<close>








subsection \<open>Reachable states\<close>

text \<open>
  The owner that the authentication hands to an operation is the \<^verbatim>\<open>_id\<close> of a users
  document: its string form is 24 hexadecimal digits. A state is reachable when the
  operations lead to it from the initial state, with any arguments and any fault.
\<close>

definition is_object_id :: "string \<Rightarrow> bool" where
  "is_object_id u = (length u = 24 \<and> list_all (\<lambda>c. c \<in> set ''0123456789abcdef'') u)"

definition valid_bucket_name :: "string \<Rightarrow> bool" where
  "valid_bucket_name name =
     (name \<noteq> [] \<and> strip name \<noteq> [] \<and>
      isalnum (remove_char CHR ''_'' (remove_char CHR ''-'' name)))"

inductive reachable :: "state \<Rightarrow> bool" where
  r_init: "reachable init_state"
| r_create_bucket:
    "reachable s \<Longrightarrow> is_object_id user_id \<Longrightarrow>
     reachable (snd (create_bucket flt name description now user_id s))"
| r_delete_bucket:
    "reachable s \<Longrightarrow> is_object_id user_id \<Longrightarrow>
     reachable (snd (delete_bucket flt bucket_name user_id s))"
| r_upload_file:
    "reachable s \<Longrightarrow> is_object_id user_id \<Longrightarrow>
     reachable (snd (upload_file flt bucket_name filename file_content content_type now user_id s))"
| r_delete_file:
    "reachable s \<Longrightarrow> is_object_id user_id \<Longrightarrow>
     reachable (snd (delete_file flt bucket_name filename user_id s))"

text \<open>
  The invariant of the reachable states: the ObjectIds of the bucket documents are distinct
  and below the counter, a bucket name passed the validation and is unique for its owner,
  and a FileRecord of a bucket that still exists records the path that \<open>upload_file\<close>
  computes for it.
\<close>

definition bkey :: "bucket_doc \<Rightarrow> nat \<times> string \<times> string" where
  "bkey b = (b_id b, b_name b, b_user_id b)"

definition file_ok :: "(nat \<times> string \<times> string) list \<Rightarrow> nat \<Rightarrow> file_doc \<Rightarrow> bool" where
  "file_ok K n f =
     (f_bucket_id f < n \<and>
      (\<forall>(i, name, u)\<in>set K. i = f_bucket_id f \<longrightarrow>
         f_file_path f = os_path_join (bucket_path_of u name) [f_filename f]))"

definition keys_ok :: "(nat \<times> string \<times> string) list \<Rightarrow> nat \<Rightarrow> bool" where
  "keys_ok K n =
     ((\<forall>(i, name, u)\<in>set K. i < n \<and> valid_bucket_name name \<and> is_object_id u) \<and>
      distinct (map fst K) \<and> distinct (map snd K))"

definition reach_inv :: "state \<Rightarrow> bool" where
  "reach_inv s =
     (keys_ok (map bkey (buckets_collection s)) (next_oid s) \<and>
      (\<forall>f\<in>set (files_collection s).
         file_ok (map bkey (buckets_collection s)) (next_oid s) f))"

text \<open>A plain name is one that path resolution takes as it is.\<close>

definition plain :: "string \<Rightarrow> bool" where
  "plain c = (c \<noteq> [] \<and> c \<noteq> ''.'' \<and> c \<noteq> ''..'' \<and> CHR ''/'' \<notin> set c \<and> CHR 0x00 \<notin> set c)"

subsection \<open>Sequences of operations\<close>

text \<open>
  A request is one call of \<open>create_bucket\<close>, \<open>upload_file\<close> or \<open>delete_file\<close> with its
  arguments (the owner last); it is performed with backing stores that do not fail, and a
  sequence of requests is run from left to right. The response is dropped: a request that
  is answered with an error is part of the sequence like any other.
\<close>

datatype request =
    CreateBucket string "string option" string string
  | UploadFile string string bytes "string option" string string
  | DeleteFile string string string

fun perform :: "request \<Rightarrow> state \<Rightarrow> state" where
  "perform (CreateBucket name description now user_id) s =
     snd (create_bucket NoFault name description now user_id s)"
| "perform (UploadFile bucket_name filename file_content content_type now user_id) s =
     snd (upload_file NoFault bucket_name filename file_content content_type now user_id s)"
| "perform (DeleteFile bucket_name filename user_id) s =
     snd (delete_file NoFault bucket_name filename user_id s)"

fun requester :: "request \<Rightarrow> string" where
  "requester (CreateBucket name description now user_id) = user_id"
| "requester (UploadFile bucket_name filename file_content content_type now user_id) = user_id"
| "requester (DeleteFile bucket_name filename user_id) = user_id"

definition run :: "request list \<Rightarrow> state \<Rightarrow> state" where
  "run rs s = fold perform rs s"

text \<open>
  Invariant I1 of the specification: the cached aggregates of every bucket document are the
  number and the total size of the FileRecords that carry its id.
\<close>

definition records_of :: "state \<Rightarrow> nat \<Rightarrow> file_doc list" where
  "records_of s bucket_id = filter (\<lambda>f. f_bucket_id f = bucket_id) (files_collection s)"

definition aggregates_consistent :: "state \<Rightarrow> bool" where
  "aggregates_consistent s =
     (\<forall>b\<in>set (buckets_collection s).
        b_file_count b = int (length (records_of s (b_id b))) \<and>
        b_total_size b = sum_list (map f_size (records_of s (b_id b))))"

text \<open>
  What the runs without faults keep besides: every FileRecord has its own blob, of the
  recorded size, and every directory under the storage root belongs to a bucket document.
\<close>

definition blob_of :: "filesystem \<Rightarrow> file_doc \<Rightarrow> path option" where
  "blob_of fs f = resolve fs (f_file_path f)"

definition blob_ok :: "filesystem \<Rightarrow> file_doc \<Rightarrow> bool" where
  "blob_ok fs f =
     (case blob_of fs f of
        None \<Rightarrow> False
      | Some q \<Rightarrow>
         (case node_at fs q of
            Some (File body) \<Rightarrow> int (length body) = f_size f
          | _ \<Rightarrow> False))"

definition dirs_ok :: "filesystem \<Rightarrow> (nat \<times> string \<times> string) list \<Rightarrow> bool" where
  "dirs_ok fs K =
     (\<forall>p. fs p = Some Dir \<longrightarrow>
        p = [''app''] \<or> p = [''app'', ''storage''] \<or>
        (\<exists>(i, name, u)\<in>set K.
           p = [''app'', ''storage'', u] \<or> p = [''app'', ''storage'', u, name]))"

definition store_inv :: "state \<Rightarrow> bool" where
  "store_inv s =
     (reach_inv s \<and> aggregates_consistent s \<and>
      (\<forall>f\<in>set (files_collection s). f_id f < next_oid s) \<and>
      distinct (map f_id (files_collection s)) \<and>
      (\<forall>f\<in>set (files_collection s). blob_ok (disk s) f) \<and>
      distinct (map (blob_of (disk s)) (files_collection s)) \<and>
      dirs_ok (disk s) (map bkey (buckets_collection s)))"

text \<open>The directories that \<open>mk_chain\<close> visits.\<close>

fun chain_paths :: "path \<Rightarrow> string list \<Rightarrow> path list" where
  "chain_paths cur [] = []"
| "chain_paths cur (c # cs) =
     (if c = [] \<or> c = ''.'' then chain_paths cur cs
      else if c = ''..'' then chain_paths (butlast cur) cs
      else (cur @ [c]) # chain_paths (cur @ [c]) cs)"

text \<open>A short run: one bucket, two uploads, one deletion.\<close>

definition demo_requests :: "request list" where
  "demo_requests =
     [CreateBucket ''a'' None ''t0'' alice,
      UploadFile ''a'' ''x'' ''hello'' None ''t1'' alice,
      UploadFile ''a'' ''y'' ''abc'' None ''t2'' alice,
      DeleteFile ''a'' ''x'' alice]"

section \<open>Properties\<close>

lemmas fs_defs = is_dir_def node_at_def resolve_def os_path_exists_def open_wb_def os_remove_def
  rmtree_def below_def os_makedirs_def join2_def os_path_join_def bucket_path_of_def
  STORAGE_PATH_def os_path_getsize_def

lemmas str_defs = isalnum_char_def isalnum_def isspace_char_def strip_def remove_char_def

lemmas db_defs = delete_many_def inc_stats_def find_bucket_def find_file_def
  get_user_storage_usage_def check_storage_limit_def STORAGE_LIMIT_GB_def
  STORAGE_LIMIT_BYTES_def

lemmas op_defs = create_bucket_except_def create_bucket_def delete_bucket_doc_def
  delete_bucket_def write_file_def upload_file_except_def upload_file_def recorded_path_def
  download_file_def measure_and_remove_def delete_file_def

lemmas eval_defs = op_defs db_defs str_defs fs_defs Let_def init_state_def init_disk_def
  alice_def bob_def

subsection \<open>Path resolution\<close>

lemma walk_mono:
  "walk fs cur cs = Some r \<Longrightarrow> (\<And>k. is_dir fs k \<Longrightarrow> is_dir fs' k) \<Longrightarrow> walk fs' cur cs = Some r"
  by (induction cs arbitrary: cur) (auto split: if_splits)

lemma resolve_mono:
  "resolve fs p = Some r \<Longrightarrow> (\<And>k. is_dir fs k \<Longrightarrow> is_dir fs' k) \<Longrightarrow> resolve fs' p = Some r"
  unfolding resolve_def by (auto split: if_splits intro: walk_mono)

lemma not_exists_resolved:
  "\<not> os_path_exists fs p \<Longrightarrow> resolve fs p = Some q \<Longrightarrow> fs q = None \<and> q \<noteq> []"
  by (auto simp: os_path_exists_def node_at_def split: if_splits)

subsection \<open>Scenario states, evaluated\<close>

lemma st_a_eval:
  "st_a = \<lparr>buckets_collection =
            [\<lparr>b_id = 0, b_name = ''a'', b_description = None, b_user_id = alice,
              b_created_at = ''t0'', b_file_count = 0, b_total_size = 0\<rparr>],
          files_collection = [],
          disk = init_disk([''app'', ''storage'', alice] \<mapsto> Dir,
                           [''app'', ''storage'', alice, ''a''] \<mapsto> Dir),
          next_oid = 1\<rparr>"
  by (simp add: st_a_def eval_defs)

subsection \<open>Quota admission\<close>

lemma upload_file_except_Inl: "upload_file_except p s \<noteq> (Inr d, s')"
  by (auto simp: upload_file_except_def split: option.splits)

lemma usage_sum:
  "get_user_storage_usage s u =
     sum_list (map f_size (filter (\<lambda>f. f_user_id f = u) (files_collection s)))"
  by (simp add: get_user_storage_usage_def split: list.splits)

lemma upload_file_accepted_quota:
  assumes "upload_file flt bn fn c ct now u s = (Inr d, s')"
  shows "check_storage_limit s u (int (length c))"
  using assms
  by (auto simp: upload_file_def Let_def upload_file_except_Inl
           split: option.splits if_splits sum.splits)

text \<open>
  Claim C2. The admission check returns true exactly when the owner's current usage (the
  sum of the sizes of the owner's FileRecords) plus the new bytes is at most 1 GiB
  (1073741824 bytes). An upload into an existing bucket for which the check returns false
  is answered with the quota error (status 413) and leaves the whole state as it was,
  whatever fault is injected. Every accepted upload satisfies
  \<open>usage_before + size \<le> 1073741824\<close>.
\<close>

theorem quota_admission:
  "(check_storage_limit s user_id n \<longleftrightarrow> get_user_storage_usage s user_id + n \<le> 1073741824) \<and>
   (find_bucket s bucket_name user_id \<noteq> None \<and>
      \<not> check_storage_limit s user_id (int (length file_content))
    \<longrightarrow> upload_file flt bucket_name filename file_content content_type now user_id s
          = (Inl StorageLimitExceeded, s)) \<and>
   (upload_file flt bucket_name filename file_content content_type now user_id s = (Inr d, s')
    \<longrightarrow> get_user_storage_usage s user_id + int (length file_content) \<le> 1073741824)"
proof (intro conjI impI)
  show lim: "check_storage_limit s user_id n \<longleftrightarrow> get_user_storage_usage s user_id + n \<le> 1073741824"
    for n
    by (simp add: check_storage_limit_def STORAGE_LIMIT_BYTES_def STORAGE_LIMIT_GB_def)
  show "upload_file flt bucket_name filename file_content content_type now user_id s
          = (Inl StorageLimitExceeded, s)"
    if "find_bucket s bucket_name user_id \<noteq> None \<and>
      \<not> check_storage_limit s user_id (int (length file_content))"
    using that by (auto simp: upload_file_def Let_def)
  show "get_user_storage_usage s user_id + int (length file_content) \<le> 1073741824"
    if "upload_file flt bucket_name filename file_content content_type now user_id s = (Inr d, s')"
    using upload_file_accepted_quota[OF that] lim by simp
qed

lemma st_a_upload_x:
  "\<exists>d s'. upload_file NoFault ''a'' ''x'' ''hello'' None ''t1'' alice st_a = (Inr d, s')"
  by (simp add: st_a_eval eval_defs)

theorem quota_admission_witness:
  "find_bucket st_full ''a'' alice \<noteq> None \<and>
   \<not> check_storage_limit st_full alice (int (length ''hello'')) \<and>
   upload_file NoFault ''a'' ''x'' ''hello'' None ''t1'' alice st_full
     = (Inl StorageLimitExceeded, st_full) \<and>
   (\<exists>d s'. upload_file NoFault ''a'' ''x'' ''hello'' None ''t1'' alice st_a = (Inr d, s')) \<and>
   get_user_storage_usage st_a alice + int (length ''hello'') \<le> 1073741824"
proof -
  have h1: "find_bucket st_full ''a'' alice \<noteq> None \<and>
            \<not> check_storage_limit st_full alice (int (length ''hello''))"
    by (simp add: st_full_def st_a_eval db_defs alice_def)
  from st_a_upload_x obtain d s' where
    h2: "upload_file NoFault ''a'' ''x'' ''hello'' None ''t1'' alice st_a = (Inr d, s')"
    by blast
  show ?thesis
    using h1 h2
      quota_admission[of st_full alice 0 "''a''" "''hello''" NoFault "''x''" None "''t1''"]
      quota_admission[of st_a alice 0 "''a''" "''hello''" NoFault "''x''" None "''t1''" d s']
    by blast
qed

subsection \<open>Compensation after a failed insert\<close>

lemma write_file_ok:
  assumes "write_file flt fs p c = Inr fs1" "\<not> os_path_exists fs p"
  shows "\<exists>q. resolve fs p = Some q \<and> fs q = None \<and> q \<noteq> [] \<and> fs1 = fs(q \<mapsto> File c) \<and>
             resolve fs1 p = Some q"
proof -
  from assms(1) obtain q where q: "open_wb fs p = Some q" and fs1: "fs1 = fs(q \<mapsto> File c)"
    by (auto simp: write_file_def split: if_splits option.splits fault.splits)
  from q have r: "resolve fs p = Some q"
    by (auto simp: open_wb_def split: option.splits if_splits)
  from assms(2) r have n: "fs q = None \<and> q \<noteq> []" by (rule not_exists_resolved)
  have "resolve fs1 p = Some q" unfolding fs1
    by (rule resolve_mono[OF r]) (use n in \<open>auto simp: is_dir_def\<close>)
  with r n fs1 show ?thesis by blast
qed

lemma upload_except_after_write:
  assumes "resolve fs p = Some q" "fs q = None" "q \<noteq> []" "disk s1 = fs(q \<mapsto> File c)"
  shows "upload_file_except p s1 = (Inl ErrorUploadingFile, s1\<lparr>disk := fs\<rparr>)"
proof -
  have r1: "resolve (disk s1) p = Some q" unfolding assms(4)
    by (rule resolve_mono[OF assms(1)]) (use assms in \<open>auto simp: is_dir_def\<close>)
  have "(fs(q \<mapsto> File c))(q := None) = fs" using assms(2) by (auto simp: fun_eq_iff)
  then show ?thesis using r1 assms
    by (simp add: upload_file_except_def os_path_exists_def os_remove_def node_at_def)
qed

text \<open>
  Claim C4. When the bucket is found, the quota admits the upload, no blob is at the target
  location, the blob write succeeds and the insertion of the FileRecord then raises, the
  blob that was written (it is on the disk after the write) is removed again before the
  error (status 500) is reported: no blob remains at the target location, and the whole
  state is the one before the call.
\<close>

theorem upload_compensation:
  assumes "find_bucket s bucket_name user_id = Some bucket"
    and "check_storage_limit s user_id (int (length file_content))"
    and "file_path = os_path_join (bucket_path_of user_id bucket_name) [filename]"
    and "\<not> os_path_exists (disk s) file_path"
    and "write_file InsertRaises (disk s) file_path file_content = Inr fs1"
  shows "os_path_exists fs1 file_path \<and>
         upload_file InsertRaises bucket_name filename file_content content_type now user_id s
           = (Inl ErrorUploadingFile, s) \<and>
         \<not> os_path_exists
             (disk (snd (upload_file InsertRaises bucket_name filename file_content content_type
                           now user_id s))) file_path"
proof -
  from write_file_ok[OF assms(5,4)] obtain q where
    q: "resolve (disk s) file_path = Some q" "disk s q = None" "q \<noteq> []"
       "fs1 = (disk s)(q \<mapsto> File file_content)" "resolve fs1 file_path = Some q" by blast
  have ex: "os_path_exists fs1 file_path" using q by (simp add: os_path_exists_def node_at_def)
  have "upload_file_except file_path (s\<lparr>disk := fs1\<rparr>)
          = (Inl ErrorUploadingFile, s\<lparr>disk := fs1\<rparr>\<lparr>disk := disk s\<rparr>)"
    by (rule upload_except_after_write[OF q(1,2,3)]) (simp add: q)
  then have up:
    "upload_file InsertRaises bucket_name filename file_content content_type now user_id s
       = (Inl ErrorUploadingFile, s)"
    using assms by (simp add: upload_file_def Let_def)
  show ?thesis using ex up assms(4) by simp
qed

lemma st_a_write_x:
  "find_bucket st_a ''a'' alice \<noteq> None \<and>
   check_storage_limit st_a alice (int (length ''hello'')) \<and>
   ''/app/storage/64b7f0c2a1d3e4f5a6b7c8d9/a/x'' = os_path_join (bucket_path_of alice ''a'') [''x''] \<and>
   \<not> os_path_exists (disk st_a) ''/app/storage/64b7f0c2a1d3e4f5a6b7c8d9/a/x'' \<and>
   write_file InsertRaises (disk st_a) ''/app/storage/64b7f0c2a1d3e4f5a6b7c8d9/a/x'' ''hello''
     = Inr ((disk st_a)([''app'', ''storage'', alice, ''a'', ''x''] \<mapsto> File ''hello''))"
  by (simp add: st_a_eval eval_defs)

theorem upload_compensation_witness:
  "find_bucket st_a ''a'' alice \<noteq> None \<and>
   check_storage_limit st_a alice (int (length ''hello'')) \<and>
   \<not> os_path_exists (disk st_a) ''/app/storage/64b7f0c2a1d3e4f5a6b7c8d9/a/x'' \<and>
   write_file InsertRaises (disk st_a) ''/app/storage/64b7f0c2a1d3e4f5a6b7c8d9/a/x'' ''hello''
     = Inr ((disk st_a)([''app'', ''storage'', alice, ''a'', ''x''] \<mapsto> File ''hello'')) \<and>
   os_path_exists ((disk st_a)([''app'', ''storage'', alice, ''a'', ''x''] \<mapsto> File ''hello''))
     ''/app/storage/64b7f0c2a1d3e4f5a6b7c8d9/a/x'' \<and>
   upload_file InsertRaises ''a'' ''x'' ''hello'' None ''t1'' alice st_a
     = (Inl ErrorUploadingFile, st_a) \<and>
   \<not> os_path_exists
       (disk (snd (upload_file InsertRaises ''a'' ''x'' ''hello'' None ''t1'' alice st_a)))
       ''/app/storage/64b7f0c2a1d3e4f5a6b7c8d9/a/x''"
proof -
  note h = st_a_write_x
  from h obtain bucket where b: "find_bucket st_a ''a'' alice = Some bucket" by blast
  show ?thesis
    using h upload_compensation[OF b, of "''hello''"
        "''/app/storage/64b7f0c2a1d3e4f5a6b7c8d9/a/x''" "''x''"
        "(disk st_a)([''app'', ''storage'', alice, ''a'', ''x''] \<mapsto> File ''hello'')" None "''t1''"]
    by blast
qed

lemma st_ab_eval:
  "st_ab = \<lparr>buckets_collection =
            [\<lparr>b_id = 0, b_name = ''a'', b_description = None, b_user_id = alice,
              b_created_at = ''t0'', b_file_count = 0, b_total_size = 0\<rparr>,
             \<lparr>b_id = 1, b_name = ''b'', b_description = None, b_user_id = alice,
              b_created_at = ''t0'', b_file_count = 0, b_total_size = 0\<rparr>],
          files_collection = [],
          disk = init_disk([''app'', ''storage'', alice] \<mapsto> Dir,
                           [''app'', ''storage'', alice, ''a''] \<mapsto> Dir,
                           [''app'', ''storage'', alice, ''b''] \<mapsto> Dir),
          next_oid = 2\<rparr>"
  by (simp add: st_ab_def st_a_eval eval_defs)

lemma st_alias_eval:
  "st_alias = \<lparr>buckets_collection =
            [\<lparr>b_id = 0, b_name = ''a'', b_description = None, b_user_id = alice,
              b_created_at = ''t0'', b_file_count = 1, b_total_size = 5\<rparr>,
             \<lparr>b_id = 1, b_name = ''b'', b_description = None, b_user_id = alice,
              b_created_at = ''t0'', b_file_count = 0, b_total_size = 0\<rparr>],
          files_collection = [\<lparr>f_id = 2, f_filename = fn_alias, f_bucket_id = 0,
              f_bucket_name = ''a'', f_user_id = alice, f_size = 5,
              f_content_type = ''application/octet-stream'', f_uploaded_at = ''t1'',
              f_file_path = fn_alias\<rparr>],
          disk = init_disk([''app'', ''storage'', alice] \<mapsto> Dir,
                           [''app'', ''storage'', alice, ''a''] \<mapsto> Dir,
                           [''app'', ''storage'', alice, ''b''] \<mapsto> Dir,
                           [''app'', ''storage'', alice, ''b'', ''x''] \<mapsto> File ''hello''),
          next_oid = 3\<rparr>"
  by (simp add: st_alias_def st_ab_eval fn_alias_def eval_defs)

lemma st_gone_eval:
  "st_gone = \<lparr>buckets_collection =
            [\<lparr>b_id = 0, b_name = ''a'', b_description = None, b_user_id = alice,
              b_created_at = ''t0'', b_file_count = 1, b_total_size = 5\<rparr>],
          files_collection = [\<lparr>f_id = 2, f_filename = fn_alias, f_bucket_id = 0,
              f_bucket_name = ''a'', f_user_id = alice, f_size = 5,
              f_content_type = ''application/octet-stream'', f_uploaded_at = ''t1'',
              f_file_path = fn_alias\<rparr>],
          disk = init_disk([''app'', ''storage'', alice] \<mapsto> Dir,
                           [''app'', ''storage'', alice, ''a''] \<mapsto> Dir),
          next_oid = 3\<rparr>"
  apply (simp add: st_gone_def st_alias_eval fn_alias_def eval_defs)
  apply (auto simp: fun_eq_iff)
  done

lemma st_b2_eval:
  "st_b2 = \<lparr>buckets_collection =
            [\<lparr>b_id = 0, b_name = ''a'', b_description = None, b_user_id = alice,
              b_created_at = ''t0'', b_file_count = 1, b_total_size = 5\<rparr>,
             \<lparr>b_id = 3, b_name = ''b'', b_description = None, b_user_id = alice,
              b_created_at = ''t2'', b_file_count = 0, b_total_size = 0\<rparr>],
          files_collection = [\<lparr>f_id = 2, f_filename = fn_alias, f_bucket_id = 0,
              f_bucket_name = ''a'', f_user_id = alice, f_size = 5,
              f_content_type = ''application/octet-stream'', f_uploaded_at = ''t1'',
              f_file_path = fn_alias\<rparr>],
          disk = init_disk([''app'', ''storage'', alice] \<mapsto> Dir,
                           [''app'', ''storage'', alice, ''a''] \<mapsto> Dir,
                           [''app'', ''storage'', alice, ''b''] \<mapsto> Dir),
          next_oid = 4\<rparr>"
  by (simp add: st_b2_def st_gone_eval fn_alias_def eval_defs)

lemma st_over_eval:
  "st_over = \<lparr>buckets_collection =
            [\<lparr>b_id = 0, b_name = ''a'', b_description = None, b_user_id = alice,
              b_created_at = ''t0'', b_file_count = 1, b_total_size = 5\<rparr>,
             \<lparr>b_id = 3, b_name = ''b'', b_description = None, b_user_id = alice,
              b_created_at = ''t2'', b_file_count = 1, b_total_size = 3\<rparr>],
          files_collection = [\<lparr>f_id = 2, f_filename = fn_alias, f_bucket_id = 0,
              f_bucket_name = ''a'', f_user_id = alice, f_size = 5,
              f_content_type = ''application/octet-stream'', f_uploaded_at = ''t1'',
              f_file_path = fn_alias\<rparr>,
             \<lparr>f_id = 4, f_filename = ''x'', f_bucket_id = 3,
              f_bucket_name = ''b'', f_user_id = alice, f_size = 3,
              f_content_type = ''application/octet-stream'', f_uploaded_at = ''t3'',
              f_file_path = fn_alias\<rparr>],
          disk = init_disk([''app'', ''storage'', alice] \<mapsto> Dir,
                           [''app'', ''storage'', alice, ''a''] \<mapsto> Dir,
                           [''app'', ''storage'', alice, ''b''] \<mapsto> Dir,
                           [''app'', ''storage'', alice, ''b'', ''x''] \<mapsto> File ''abc''),
          next_oid = 5\<rparr>"
  by (simp add: st_over_def st_b2_eval fn_alias_def eval_defs)


subsection \<open>Name validation\<close>










subsection \<open>Upload onto an existing blob\<close>

text \<open>
  Claim C3, as amended. The guard of \<open>upload_file\<close> is on the blob, not on the FileRecord:
  an upload into an existing bucket whose target location already exists on the disk is
  rejected, with AlreadyExists (status 409) when the quota admits it and with the quota
  error (status 413) otherwise, and the whole state (FileRecords, aggregates, blobs) is
  unchanged: an existing blob is never overwritten.
\<close>

theorem upload_existing_blob_rejected:
  assumes "find_bucket s bucket_name user_id = Some bucket"
    and "os_path_exists (disk s) (os_path_join (bucket_path_of user_id bucket_name) [filename])"
  shows "upload_file flt bucket_name filename file_content content_type now user_id s
           = (Inl (if check_storage_limit s user_id (int (length file_content))
                   then FileAlreadyExists else StorageLimitExceeded), s)"
  using assms by (simp add: upload_file_def Let_def)

lemma st_alias_blob:
  "find_bucket st_alias ''a'' alice \<noteq> None \<and>
   os_path_exists (disk st_alias) (os_path_join (bucket_path_of alice ''a'') [fn_alias]) \<and>
   check_storage_limit st_alias alice (int (length ''hi''))"
  by (simp add: st_alias_eval fn_alias_def eval_defs)

theorem upload_existing_blob_rejected_witness:
  "find_bucket st_alias ''a'' alice \<noteq> None \<and>
   os_path_exists (disk st_alias) (os_path_join (bucket_path_of alice ''a'') [fn_alias]) \<and>
   upload_file NoFault ''a'' fn_alias ''hi'' None ''t2'' alice st_alias
     = (Inl FileAlreadyExists, st_alias)"
proof -
  note h = st_alias_blob
  from h obtain bucket where b: "find_bucket st_alias ''a'' alice = Some bucket" by blast
  show ?thesis
    using h upload_existing_blob_rejected[OF b, of fn_alias NoFault "''hi''" None "''t2''"]
    by simp
qed

text \<open>
  The claim as stated fails where a FileRecord has lost its blob. In \<open>st_b2\<close> the bucket
  \<^verbatim>\<open>a\<close> holds a FileRecord for the file name, whose blob went with the directory of the
  deleted bucket; the upload of the same file name is accepted and the bucket then holds
  two FileRecords for it, of sizes 5 and 2.
\<close>

theorem upload_existing_record_counterexample:
  "find_file st_b2 0 fn_alias \<noteq> None \<and>
   \<not> isl (fst (upload_file NoFault ''a'' fn_alias ''hi'' None ''t3'' alice st_b2)) \<and>
   map f_size (filter (\<lambda>f. f_bucket_id f = 0 \<and> f_filename f = fn_alias)
     (files_collection (snd (upload_file NoFault ''a'' fn_alias ''hi'' None ''t3'' alice st_b2)))) = [5, 2]"
  by (simp add: st_b2_eval fn_alias_def eval_defs)

subsection \<open>The decrement of delete_file\<close>







subsection \<open>Blob location\<close>

lemma st_bob_eval:
  "st_bob = \<lparr>buckets_collection =
            [\<lparr>b_id = 0, b_name = ''a'', b_description = None, b_user_id = alice,
              b_created_at = ''t0'', b_file_count = 0, b_total_size = 0\<rparr>,
             \<lparr>b_id = 1, b_name = ''b'', b_description = None, b_user_id = bob,
              b_created_at = ''t0'', b_file_count = 0, b_total_size = 0\<rparr>],
          files_collection = [],
          disk = init_disk([''app'', ''storage'', alice] \<mapsto> Dir,
                           [''app'', ''storage'', alice, ''a''] \<mapsto> Dir,
                           [''app'', ''storage'', bob] \<mapsto> Dir,
                           [''app'', ''storage'', bob, ''b''] \<mapsto> Dir),
          next_oid = 2\<rparr>"
  by (simp add: st_bob_def st_a_eval eval_defs)

text \<open>
  Claim C9. The location is \<^verbatim>\<open>os.path.join(STORAGE_PATH, str(user_id), bucket_name,
  filename)\<close> with the file name as the client sent it. In \<open>st_bob\<close>, where the directory
  of the first owner's bucket is \<^verbatim>\<open>/app/storage/<alice>/a\<close>, her upload under an absolute
  file name, and her upload under a file name with \<^verbatim>\<open>..\<close>, are accepted and the blob is
  written into the bucket of the other owner, outside the subtree of her bucket.
\<close>

theorem upload_escapes_bucket_subtree:
  "resolve (disk st_bob) (bucket_path_of alice ''a'') = Some [''app'', ''storage'', alice, ''a''] \<and>
   fst (upload_file NoFault ''a'' ''/app/storage/64b7f0c2a1d3e4f5a6b7c8da/b/x'' ''hello'' None ''t1''
          alice st_bob)
     = Inr \<lparr>f_id = 2, f_filename = ''/app/storage/64b7f0c2a1d3e4f5a6b7c8da/b/x'',
            f_bucket_id = 0, f_bucket_name = ''a'', f_user_id = alice, f_size = 5,
            f_content_type = ''application/octet-stream'', f_uploaded_at = ''t1'',
            f_file_path = ''/app/storage/64b7f0c2a1d3e4f5a6b7c8da/b/x''\<rparr> \<and>
   disk (snd (upload_file NoFault ''a'' ''/app/storage/64b7f0c2a1d3e4f5a6b7c8da/b/x'' ''hello''
                None ''t1'' alice st_bob))
        [''app'', ''storage'', bob, ''b'', ''x''] = Some (File ''hello'') \<and>
   \<not> below [''app'', ''storage'', alice, ''a''] [''app'', ''storage'', bob, ''b'', ''x''] \<and>
   fst (upload_file NoFault ''a'' ''../../64b7f0c2a1d3e4f5a6b7c8da/b/y'' ''hello'' None ''t1''
          alice st_bob)
     = Inr \<lparr>f_id = 2, f_filename = ''../../64b7f0c2a1d3e4f5a6b7c8da/b/y'',
            f_bucket_id = 0, f_bucket_name = ''a'', f_user_id = alice, f_size = 5,
            f_content_type = ''application/octet-stream'', f_uploaded_at = ''t1'',
            f_file_path = ''/app/storage/64b7f0c2a1d3e4f5a6b7c8d9/a/../../64b7f0c2a1d3e4f5a6b7c8da/b/y''\<rparr> \<and>
   disk (snd (upload_file NoFault ''a'' ''../../64b7f0c2a1d3e4f5a6b7c8da/b/y'' ''hello''
                None ''t1'' alice st_bob))
        [''app'', ''storage'', bob, ''b'', ''y''] = Some (File ''hello'') \<and>
   \<not> below [''app'', ''storage'', alice, ''a''] [''app'', ''storage'', bob, ''b'', ''y'']"
  by (simp add: st_bob_eval eval_defs)

subsection \<open>A failed aggregate update\<close>

text \<open>
  Claim C10. With the bucket found, the quota admitting, no blob at the target and no
  FileRecord for the name, the upload whose \<^verbatim>\<open>update_one\<close> raises reports the error
  (status 500) after \<^verbatim>\<open>insert_one\<close> has succeeded: the handler removes the blob, and
  the FileRecord stays in the collection.
\<close>

theorem upload_update_failure_leaves_record:
  "find_bucket st_a ''a'' alice \<noteq> None \<and>
   check_storage_limit st_a alice (int (length ''hello'')) \<and>
   \<not> os_path_exists (disk st_a) (os_path_join (bucket_path_of alice ''a'') [''x'']) \<and>
   find_file st_a 0 ''x'' = None \<and>
   fst (upload_file UpdateRaises ''a'' ''x'' ''hello'' None ''t1'' alice st_a) = Inl ErrorUploadingFile \<and>
   find_file (snd (upload_file UpdateRaises ''a'' ''x'' ''hello'' None ''t1'' alice st_a)) 0 ''x'' \<noteq> None \<and>
   files_collection (snd (upload_file UpdateRaises ''a'' ''x'' ''hello'' None ''t1'' alice st_a))
     \<noteq> files_collection st_a \<and>
   \<not> os_path_exists (disk (snd (upload_file UpdateRaises ''a'' ''x'' ''hello'' None ''t1'' alice st_a)))
       (os_path_join (bucket_path_of alice ''a'') [''x''])"
  by (simp add: st_a_eval eval_defs)

subsection \<open>Collections\<close>

lemma set_delete_one: "set (delete_one P xs) \<subseteq> set xs"
  by (induction xs) auto

lemma distinct_map_delete_one:
  "distinct (map h xs) \<Longrightarrow> distinct (map h (delete_one P xs))"
proof (induction xs)
  case Nil
  then show ?case by simp
next
  case (Cons x xs)
  have "h x \<notin> h ` set (delete_one P xs)" using Cons.prems set_delete_one[of P xs] by auto
  with Cons show ?case by auto
qed

lemma map_update_one: "(\<And>x. h (g x) = h x) \<Longrightarrow> map h (update_one P g xs) = map h xs"
  by (induction xs) auto

lemma set_update_one: "y \<in> set (update_one P g xs) \<Longrightarrow> y \<in> set xs \<or> (\<exists>x\<in>set xs. y = g x)"
  by (induction xs) (auto split: if_splits)

lemma find_update_one_id:
  assumes "\<And>x. Q (g x) = Q x" "\<And>x. h (g x) = h x"
  shows "map_option h (find Q (update_one P g xs)) = map_option h (find Q xs)"
  using assms by (induction xs) auto

lemma inc_stats_key [simp]: "map bkey (inc_stats bid dc ds bs) = map bkey bs"
  unfolding inc_stats_def by (rule map_update_one) (simp add: bkey_def)

lemma find_bucket_inc_stats:
  "map_option b_id (find (\<lambda>b. b_name b = bn \<and> b_user_id b = u) (inc_stats bid dc ds bs))
     = map_option b_id (find (\<lambda>b. b_name b = bn \<and> b_user_id b = u) bs)"
  unfolding inc_stats_def by (rule find_update_one_id) simp_all

lemma find_bucket_props:
  "find_bucket s bn u = Some b \<Longrightarrow> b \<in> set (buckets_collection s) \<and> b_name b = bn \<and> b_user_id b = u"
  by (auto simp: find_bucket_def find_Some_iff)

subsection \<open>What each operation does to the collections\<close>

lemma create_bucket_shape:
  assumes "snd (create_bucket flt name description now user_id s) = s'"
  shows "(buckets_collection s' = buckets_collection s \<and> next_oid s' = next_oid s \<or>
          valid_bucket_name name \<and> find_bucket s name user_id = None \<and>
          map bkey (buckets_collection s')
            = map bkey (buckets_collection s) @ [(next_oid s, name, user_id)] \<and>
          next_oid s' = next_oid s + 1) \<and>
         files_collection s' = files_collection s"
  using assms
  by (auto simp: create_bucket_def create_bucket_except_def Let_def valid_bucket_name_def
                 bkey_def
           split: if_splits option.splits)

lemma delete_bucket_shape:
  assumes "snd (delete_bucket flt bucket_name user_id s) = s'"
  shows "next_oid s' = next_oid s \<and>
         (buckets_collection s' = buckets_collection s \<or>
          (\<exists>b. find_bucket s bucket_name user_id = Some b \<and>
             buckets_collection s' = delete_one (\<lambda>x. b_id x = b_id b) (buckets_collection s))) \<and>
         set (files_collection s') \<subseteq> set (files_collection s)"
  using assms
  by (auto simp: delete_bucket_def delete_bucket_doc_def Let_def delete_many_def
           split: if_splits option.splits)

lemma upload_file_except_shape:
  "buckets_collection (snd (upload_file_except p s)) = buckets_collection s \<and>
   files_collection (snd (upload_file_except p s)) = files_collection s \<and>
   next_oid (snd (upload_file_except p s)) = next_oid s"
  by (auto simp: upload_file_except_def split: option.splits)

lemma upload_file_shape:
  assumes "snd (upload_file flt bucket_name filename file_content content_type now user_id s) = s'"
  shows "map bkey (buckets_collection s') = map bkey (buckets_collection s) \<and>
         ((files_collection s' = files_collection s \<and> next_oid s' = next_oid s) \<or>
          (\<exists>b d. find_bucket s bucket_name user_id = Some b \<and>
            f_bucket_id d = b_id b \<and> f_filename d = filename \<and>
            f_file_path d = os_path_join (bucket_path_of user_id bucket_name) [filename] \<and>
            files_collection s' = files_collection s @ [d] \<and> next_oid s' = next_oid s + 1))"
  using assms
  by (auto simp: upload_file_def Let_def upload_file_except_shape
           split: option.splits if_splits sum.splits)

lemma delete_file_shape:
  assumes "snd (delete_file flt bucket_name filename user_id s) = s'"
  shows "next_oid s' = next_oid s \<and>
         set (files_collection s') \<subseteq> set (files_collection s) \<and>
         map bkey (buckets_collection s') = map bkey (buckets_collection s)"
  using assms
  by (auto simp: delete_file_def Let_def split: option.splits if_splits prod.splits
           dest: subsetD[OF set_delete_one])

subsection \<open>The invariant of the reachable states\<close>

lemma find_bucket_key:
  "find_bucket s bn u = Some b \<Longrightarrow> (b_id b, bn, u) \<in> set (map bkey (buckets_collection s))"
  by (auto simp: find_bucket_def find_Some_iff bkey_def image_iff)

lemma find_bucket_None_key:
  "find_bucket s bn u = None \<Longrightarrow> (i, bn, u) \<notin> set (map bkey (buckets_collection s))"
  by (auto simp: find_bucket_def find_None_iff bkey_def)

lemma reach_inv_init: "reach_inv init_state"
  by (simp add: reach_inv_def keys_ok_def init_state_def)

lemma file_ok_mono:
  "file_ok K n f \<Longrightarrow> set K' \<subseteq> set K \<Longrightarrow> n \<le> n' \<Longrightarrow> file_ok K' n' f"
  by (fastforce simp: file_ok_def)

lemma reach_inv_create_bucket:
  assumes "reach_inv s" "is_object_id user_id"
  shows "reach_inv (snd (create_bucket flt name description now user_id s))"
proof -
  let ?s' = "snd (create_bucket flt name description now user_id s)"
  let ?K = "map bkey (buckets_collection s)"
  from create_bucket_shape[OF refl, of flt name description now user_id s]
  have f: "files_collection ?s' = files_collection s"
    and c: "buckets_collection ?s' = buckets_collection s \<and> next_oid ?s' = next_oid s \<or>
          valid_bucket_name name \<and> find_bucket s name user_id = None \<and>
          map bkey (buckets_collection ?s') = ?K @ [(next_oid s, name, user_id)] \<and>
          next_oid ?s' = next_oid s + 1" by blast+
  from c show ?thesis
  proof
    assume "buckets_collection ?s' = buckets_collection s \<and> next_oid ?s' = next_oid s"
    with f assms(1) show ?thesis by (simp add: reach_inv_def)
  next
    assume a: "valid_bucket_name name \<and> find_bucket s name user_id = None \<and>
          map bkey (buckets_collection ?s') = ?K @ [(next_oid s, name, user_id)] \<and>
          next_oid ?s' = next_oid s + 1"
    have k: "keys_ok ?K (next_oid s)" and fo: "\<forall>f\<in>set (files_collection s). file_ok ?K (next_oid s) f"
      using assms(1) by (simp_all add: reach_inv_def)
    have nk: "(name, user_id) \<notin> snd ` set ?K"
      using a find_bucket_None_key[of s name user_id] by force
    have fresh: "next_oid s \<notin> fst ` set ?K" using k by (force simp: keys_ok_def)
    have k': "keys_ok (?K @ [(next_oid s, name, user_id)]) (next_oid s + 1)"
      using k a assms(2) nk fresh by (fastforce simp: keys_ok_def)
    have "file_ok (?K @ [(next_oid s, name, user_id)]) (next_oid s + 1) f"
      if "f \<in> set (files_collection s)" for f
      using fo that by (fastforce simp: file_ok_def)
    with k' a f show ?thesis by (simp add: reach_inv_def)
  qed
qed

lemma keys_ok_delete_one:
  assumes "keys_ok (map bkey bs) n"
  shows "keys_ok (map bkey (delete_one P bs)) n"
proof -
  have 1: "map fst (map bkey (delete_one P bs)) = map (fst \<circ> bkey) (delete_one P bs)"
    and 2: "map snd (map bkey (delete_one P bs)) = map (snd \<circ> bkey) (delete_one P bs)" by simp_all
  have d1: "distinct (map (fst \<circ> bkey) (delete_one P bs))"
    using assms by (intro distinct_map_delete_one) (simp add: keys_ok_def)
  have d2: "distinct (map (snd \<circ> bkey) (delete_one P bs))"
    using assms by (intro distinct_map_delete_one) (simp add: keys_ok_def)
  have "set (map bkey (delete_one P bs)) \<subseteq> set (map bkey bs)"
    using set_delete_one[of P bs] by auto
  with assms d1 d2 show ?thesis unfolding keys_ok_def 1 2 by blast
qed

lemma reach_inv_delete_bucket:
  assumes "reach_inv s"
  shows "reach_inv (snd (delete_bucket flt bucket_name user_id s))"
proof -
  let ?s' = "snd (delete_bucket flt bucket_name user_id s)"
  from delete_bucket_shape[OF refl, of flt bucket_name user_id s]
  have n: "next_oid ?s' = next_oid s"
    and fs: "set (files_collection ?s') \<subseteq> set (files_collection s)"
    and b: "buckets_collection ?s' = buckets_collection s \<or>
          (\<exists>b. find_bucket s bucket_name user_id = Some b \<and>
             buckets_collection ?s' = delete_one (\<lambda>x. b_id x = b_id b) (buckets_collection s))"
    by blast+
  have k: "keys_ok (map bkey (buckets_collection ?s')) (next_oid s)"
    using b assms keys_ok_delete_one by (auto simp: reach_inv_def)
  have sub: "set (map bkey (buckets_collection ?s')) \<subseteq> set (map bkey (buckets_collection s))"
  proof (rule disjE[OF b])
    assume "buckets_collection ?s' = buckets_collection s"
    then show ?thesis by simp
  next
    assume "\<exists>b. find_bucket s bucket_name user_id = Some b \<and>
             buckets_collection ?s' = delete_one (\<lambda>x. b_id x = b_id b) (buckets_collection s)"
    then obtain b0 :: bucket_doc where
      e: "buckets_collection ?s' = delete_one (\<lambda>x. b_id x = b_id b0) (buckets_collection s)"
      by blast
    show ?thesis unfolding e
      using set_delete_one[of "\<lambda>x. b_id x = b_id b0" "buckets_collection s"] by auto
  qed
  have "file_ok (map bkey (buckets_collection ?s')) (next_oid s) f"
    if "f \<in> set (files_collection ?s')" for f
    using that fs assms sub file_ok_mono[OF _ sub order_refl] by (auto simp: reach_inv_def)
  with k n show ?thesis by (simp add: reach_inv_def)
qed

lemma keys_ok_mono: "keys_ok K n \<Longrightarrow> n \<le> n' \<Longrightarrow> keys_ok K n'"
  by (fastforce simp: keys_ok_def)

lemma reach_inv_upload_file:
  assumes "reach_inv s"
  shows "reach_inv (snd (upload_file flt bucket_name filename file_content content_type now user_id s))"
proof -
  let ?s' = "snd (upload_file flt bucket_name filename file_content content_type now user_id s)"
  let ?K = "map bkey (buckets_collection s)"
  from upload_file_shape[OF refl, of flt bucket_name filename file_content content_type now user_id s]
  have K: "map bkey (buckets_collection ?s') = ?K"
    and c: "(files_collection ?s' = files_collection s \<and> next_oid ?s' = next_oid s) \<or>
          (\<exists>b d. find_bucket s bucket_name user_id = Some b \<and>
            f_bucket_id d = b_id b \<and> f_filename d = filename \<and>
            f_file_path d = os_path_join (bucket_path_of user_id bucket_name) [filename] \<and>
            files_collection ?s' = files_collection s @ [d] \<and> next_oid ?s' = next_oid s + 1)"
    by blast+
  have k: "keys_ok ?K (next_oid s)" and fo: "\<forall>f\<in>set (files_collection s). file_ok ?K (next_oid s) f"
    using assms(1) by (simp_all add: reach_inv_def)
  from c show ?thesis
  proof
    assume "files_collection ?s' = files_collection s \<and> next_oid ?s' = next_oid s"
    with K assms show ?thesis by (simp add: reach_inv_def)
  next
    assume "\<exists>b d. find_bucket s bucket_name user_id = Some b \<and>
            f_bucket_id d = b_id b \<and> f_filename d = filename \<and>
            f_file_path d = os_path_join (bucket_path_of user_id bucket_name) [filename] \<and>
            files_collection ?s' = files_collection s @ [d] \<and> next_oid ?s' = next_oid s + 1"
    then obtain b d where b: "find_bucket s bucket_name user_id = Some b"
      and d: "f_bucket_id d = b_id b" "f_filename d = filename"
        "f_file_path d = os_path_join (bucket_path_of user_id bucket_name) [filename]"
      and f': "files_collection ?s' = files_collection s @ [d]"
      and n': "next_oid ?s' = next_oid s + 1" by blast
    have mem: "(b_id b, bucket_name, user_id) \<in> set ?K" using b by (rule find_bucket_key)
    have uniq: "name = bucket_name \<and> u = user_id" if "(b_id b, name, u) \<in> set ?K" for name u
    proof -
      have "distinct (map fst ?K)" using k by (simp add: keys_ok_def)
      from eq_key_imp_eq_value[OF this that mem] show ?thesis by simp
    qed
    have lt: "b_id b < next_oid s" using k mem by (fastforce simp: keys_ok_def)
    have dok: "file_ok ?K (next_oid s + 1) d"
      unfolding file_ok_def
    proof (intro conjI ballI)
      show "f_bucket_id d < next_oid s + 1" using d lt by simp
    next
      fix k assume kK: "k \<in> set ?K"
      obtain i name u where k: "k = (i, name, u)" by (cases k)
      show "case k of (i, name, u) \<Rightarrow> i = f_bucket_id d \<longrightarrow>
              f_file_path d = os_path_join (bucket_path_of u name) [f_filename d]"
        using k kK d uniq[of name u] by auto
    qed
    have "file_ok ?K (next_oid s + 1) f" if "f \<in> set (files_collection s)" for f
      using fo that file_ok_mono[of ?K "next_oid s" f ?K "next_oid s + 1"] by simp
    with dok K f' n' keys_ok_mono[OF k, of "next_oid s + 1"] show ?thesis
      by (auto simp: reach_inv_def)
  qed
qed

lemma reach_inv_delete_file:
  assumes "reach_inv s"
  shows "reach_inv (snd (delete_file flt bucket_name filename user_id s))"
  using assms delete_file_shape[OF refl, of flt bucket_name filename user_id s]
  by (auto simp: reach_inv_def)

lemma reachable_inv: "reachable s \<Longrightarrow> reach_inv s"
  by (induction rule: reachable.induct)
     (simp_all add: reach_inv_init reach_inv_create_bucket reach_inv_delete_bucket
        reach_inv_upload_file reach_inv_delete_file)

subsection \<open>Canonical bucket directories\<close>

lemma is_object_id_plain:
  assumes "is_object_id u"
  shows "plain u"
proof -
  have len: "length u = 24" and hex: "\<forall>c\<in>set u. c \<in> set ''0123456789abcdef''"
    using assms unfolding is_object_id_def list_all_iff by blast+
  have "CHR ''/'' \<notin> set ''0123456789abcdef''" "CHR 0x00 \<notin> set ''0123456789abcdef''"
    by simp_all
  with hex have "CHR ''/'' \<notin> set u" "CHR 0x00 \<notin> set u" by blast+
  moreover from len have "u \<noteq> []" "u \<noteq> ''.''" "u \<noteq> ''..''" by auto
  ultimately show ?thesis by (simp add: plain_def)
qed

lemma valid_name_chars:
  assumes "valid_bucket_name n" "c \<in> set n"
  shows "isalnum_char c \<or> c = CHR ''-'' \<or> c = CHR ''_''"
  using assms by (auto simp: valid_bucket_name_def isalnum_def remove_char_def list_all_iff)

lemma valid_bucket_name_plain:
  assumes "valid_bucket_name n"
  shows "plain n"
proof -
  have ne: "n \<noteq> []" using assms by (simp add: valid_bucket_name_def)
  have bad: "\<not> (isalnum_char c \<or> c = CHR ''-'' \<or> c = CHR ''_'')"
    if "c = CHR ''/'' \<or> c = CHR ''.'' \<or> c = CHR 0x00" for c
    using that by (auto simp: isalnum_char_def)
  have "CHR ''/'' \<notin> set n" "CHR ''.'' \<notin> set n" "CHR 0x00 \<notin> set n"
    using valid_name_chars[OF assms] bad by blast+
  then show ?thesis using ne by (auto simp: plain_def)
qed

lemma split_sep_not_Nil [simp]: "split_sep a \<noteq> []"
  by (induction a) (auto split: list.splits)

lemma split_sep_append: "split_sep (a @ CHR ''/'' # b) = split_sep a @ split_sep b"
  by (induction a) (auto split: list.splits)

lemma split_sep_plain: "CHR ''/'' \<notin> set c \<Longrightarrow> split_sep c = [c]"
  by (induction c) (auto split: list.splits)

lemma bucket_path_plain:
  assumes "plain u" "plain n"
  shows "bucket_path_of u n = ''/app/storage'' @ CHR ''/'' # u @ CHR ''/'' # n"
proof -
  have "hd u \<noteq> CHR ''/''" "hd n \<noteq> CHR ''/''" "u \<noteq> []" "n \<noteq> []"
    using assms by (auto simp: plain_def) (metis list.set_sel(1))+
  moreover have "last (''/app/storage/'' @ u) \<noteq> CHR ''/''"
    using assms by (auto simp: plain_def) (metis last_in_set)
  ultimately show ?thesis
    by (simp add: bucket_path_of_def os_path_join_def join2_def STORAGE_PATH_def)
qed

lemma split_bucket_path:
  assumes "plain u" "plain n"
  shows "split_sep (bucket_path_of u n) = [[], ''app'', ''storage'', u, n]"
proof -
  have "split_sep (''/app/storage'' @ CHR ''/'' # u @ CHR ''/'' # n)
          = split_sep ''/app/storage'' @ split_sep u @ split_sep n"
    by (simp only: split_sep_append)
  also have "\<dots> = [[], ''app'', ''storage'', u, n]"
    using assms by (simp add: split_sep_plain plain_def)
  finally show ?thesis by (simp only: bucket_path_plain[OF assms])
qed

lemma resolve_bucket_path:
  assumes "plain u" "plain n"
  shows "resolve fs (bucket_path_of u n) =
           (if is_dir fs [''app''] \<and> is_dir fs [''app'', ''storage''] \<and>
               is_dir fs [''app'', ''storage'', u]
            then Some [''app'', ''storage'', u, n] else None)"
proof -
  have nul: "CHR 0x00 \<notin> set (bucket_path_of u n)"
    using assms by (simp add: bucket_path_plain plain_def)
  show ?thesis
    using assms nul by (simp add: resolve_def split_bucket_path plain_def is_dir_def)
qed

subsection \<open>Nothing exists below a missing path\<close>

lemma walk_append:
  "walk fs cur (xs @ ys) = (case walk fs cur xs of None \<Rightarrow> None | Some q \<Rightarrow> walk fs q ys)"
  by (induction xs arbitrary: cur) auto

lemma walk_from_missing: "\<not> is_dir fs q \<Longrightarrow> cs \<noteq> [] \<Longrightarrow> walk fs q cs = None"
  by (cases cs) auto

lemma not_exists_below:
  assumes "\<not> os_path_exists fs p"
  shows "\<not> os_path_exists fs (p @ ''/'' @ rest)"
proof (cases "resolve fs p")
  case None
  then have "resolve fs (p @ ''/'' @ rest) = None"
    by (auto simp: resolve_def split_sep_append walk_append split: if_splits)
  then show ?thesis by (simp add: os_path_exists_def)
next
  case (Some q)
  with assms have "\<not> is_dir fs q"
    by (auto simp: os_path_exists_def node_at_def is_dir_def split: if_splits)
  then have "walk fs q (split_sep rest) = None" by (rule walk_from_missing) simp
  with Some have "resolve fs (p @ ''/'' @ rest) = None"
    by (auto simp: resolve_def split_sep_append walk_append split: if_splits)
  then show ?thesis by (simp add: os_path_exists_def)
qed

lemma rmtree_gone:
  assumes "rmtree fs p = Some fs'" "resolve fs p = Some q" "q \<noteq> []"
  shows "\<not> os_path_exists fs' p"
proof -
  have fs': "fs' = (\<lambda>r. if below q r then None else fs r)"
    using assms by (auto simp: rmtree_def split: option.splits node.splits)
  have sub: "is_dir fs' k \<Longrightarrow> is_dir fs k" for k
    by (auto simp: fs' is_dir_def split: if_splits)
  show ?thesis
  proof (cases "resolve fs' p")
    case None
    then show ?thesis by (simp add: os_path_exists_def)
  next
    case (Some q')
    from resolve_mono[OF Some sub] assms(2) have "q' = q" by simp
    moreover have "node_at fs' q = None" using assms(3) by (simp add: node_at_def fs' below_def)
    ultimately show ?thesis using Some by (simp add: os_path_exists_def)
  qed
qed

subsection \<open>Cascade deletion\<close>

lemma filter_delete_one_distinct:
  "distinct (map h xs) \<Longrightarrow> filter (\<lambda>x. h x = k) (delete_one (\<lambda>x. h x = k) xs) = []"
proof (induction xs)
  case Nil
  then show ?case by simp
next
  case (Cons a xs)
  show ?case
  proof (cases "h a = k")
    case True
    from Cons.prems have "h a \<notin> h ` set xs" by simp
    with True have "\<forall>x\<in>set xs. h x \<noteq> k" by (auto simp: image_iff)
    with True show ?thesis by (simp add: filter_empty_conv)
  next
    case False
    with Cons show ?thesis by simp
  qed
qed

lemma keys_okD:
  assumes "keys_ok K n" "(i, name, u) \<in> set K"
  shows "i < n \<and> valid_bucket_name name \<and> is_object_id u"
proof -
  from assms(1) have "\<forall>x\<in>set K. case x of (i, name, u) \<Rightarrow>
      i < n \<and> valid_bucket_name name \<and> is_object_id u" by (simp add: keys_ok_def)
  from bspec[OF this assms(2)] show ?thesis by simp
qed

lemma keys_ok_same_name:
  assumes "keys_ok K n" "(i, k) \<in> set K" "(j, k) \<in> set K"
  shows "i = j"
proof -
  from assms(1) have "inj_on snd (set K)" by (simp add: keys_ok_def distinct_map)
  from inj_onD[OF this _ assms(2,3)] show ?thesis by simp
qed

lemma keys_ok_ids: "keys_ok (map bkey bs) n \<Longrightarrow> distinct (map b_id bs)"
proof -
  have "fst \<circ> bkey = b_id" by (auto simp: bkey_def)
  then show "keys_ok (map bkey bs) n \<Longrightarrow> distinct (map b_id bs)"
    by (simp add: keys_ok_def)
qed

lemma delete_bucket_unfold:
  assumes "find_bucket s bucket_name user_id = Some bucket"
  shows "delete_bucket flt bucket_name user_id s =
     (if flt = DeleteManyRaises then (Inl ErrorDeletingBucket, s)
      else
        let s1 = s\<lparr>files_collection :=
                    delete_many (\<lambda>f. f_bucket_id f = b_id bucket) (files_collection s)\<rparr>;
            bucket_path = bucket_path_of user_id bucket_name
        in
        if os_path_exists (disk s) bucket_path then
          (case (if flt = DiskRaises then None else rmtree (disk s) bucket_path) of
             None \<Rightarrow> (Inl ErrorDeletingBucket, s1)
           | Some fs2 \<Rightarrow> delete_bucket_doc flt (b_id bucket) (s1\<lparr>disk := fs2\<rparr>))
        else delete_bucket_doc flt (b_id bucket) s1)"
  using assms by (simp add: delete_bucket_def Let_def)

text \<open>
  Claim C7. In a reachable state, after a successful \<open>delete_bucket\<close> no FileRecord has
  the id of the bucket, nothing exists at the path of the bucket nor at any path below it,
  no bucket document has the id, and the lookup by owner and name finds nothing. The order
  is FileRecords, then the directory tree, then the bucket document: the deletion that
  fails at its first call changes nothing; the one that fails at \<^verbatim>\<open>rmtree\<close> has deleted
  the FileRecords only; the one that fails at its last call leaves the final state but for
  the bucket documents, which are those before the call.
\<close>

theorem cascade_delete:
  assumes "reachable s"
    and "find_bucket s bucket_name user_id = Some bucket"
    and "delete_bucket flt bucket_name user_id s = (Inr (), s')"
    and "bucket_path = bucket_path_of user_id bucket_name"
  shows "filter (\<lambda>f. f_bucket_id f = b_id bucket) (files_collection s') = [] \<and>
         \<not> os_path_exists (disk s') bucket_path \<and>
         (\<forall>rest. \<not> os_path_exists (disk s') (bucket_path @ ''/'' @ rest)) \<and>
         filter (\<lambda>b. b_id b = b_id bucket) (buckets_collection s') = [] \<and>
         find_bucket s' bucket_name user_id = None \<and>
         delete_bucket DeleteManyRaises bucket_name user_id s = (Inl ErrorDeletingBucket, s) \<and>
         (os_path_exists (disk s) bucket_path \<longrightarrow>
            delete_bucket DiskRaises bucket_name user_id s
              = (Inl ErrorDeletingBucket, s\<lparr>files_collection := files_collection s'\<rparr>)) \<and>
         delete_bucket DeleteOneRaises bucket_name user_id s
           = (Inl ErrorDeletingBucket, s'\<lparr>buckets_collection := buckets_collection s\<rparr>)"
proof -
  note inv = reachable_inv[OF assms(1)]
  let ?K = "map bkey (buckets_collection s)"
  have k: "keys_ok ?K (next_oid s)" using inv by (simp add: reach_inv_def)
  have mem: "(b_id bucket, bucket_name, user_id) \<in> set ?K" using assms(2) by (rule find_bucket_key)
  have pl: "plain user_id" "plain bucket_name"
    using keys_okD[OF k mem] is_object_id_plain valid_bucket_name_plain by blast+
  let ?files = "delete_many (\<lambda>f. f_bucket_id f = b_id bucket) (files_collection s)"
  let ?buckets = "delete_one (\<lambda>b. b_id b = b_id bucket) (buckets_collection s)"
  let ?s1 = "s\<lparr>files_collection := ?files\<rparr>"
  note unf = delete_bucket_unfold[OF assms(2)]
  have nm: "flt \<noteq> DeleteManyRaises" and n1: "flt \<noteq> DeleteOneRaises"
    using assms(3) unfolding unf
    by (auto simp: Let_def delete_bucket_doc_def split: if_splits option.splits)
  obtain fs2 where fs2: "s' = ?s1\<lparr>disk := fs2, buckets_collection := ?buckets\<rparr>"
    and gone: "\<not> os_path_exists fs2 bucket_path"
    and ex: "os_path_exists (disk s) bucket_path \<Longrightarrow>
               flt \<noteq> DiskRaises \<and> rmtree (disk s) bucket_path = Some fs2"
    and nex: "\<not> os_path_exists (disk s) bucket_path \<Longrightarrow> fs2 = disk s"
  proof (cases "os_path_exists (disk s) bucket_path")
    case True
    then obtain f where f: "flt \<noteq> DiskRaises" "rmtree (disk s) bucket_path = Some f"
      and s': "s' = ?s1\<lparr>disk := f, buckets_collection := ?buckets\<rparr>"
      using assms(3,4) nm n1 unfolding unf
      by (auto simp: Let_def delete_bucket_doc_def split: if_splits option.splits)
    from True have r: "resolve (disk s) bucket_path = Some [''app'', ''storage'', user_id, bucket_name]"
      unfolding assms(4) os_path_exists_def resolve_bucket_path[OF pl]
      by (auto split: if_splits)
    have "\<not> os_path_exists f bucket_path" by (rule rmtree_gone[OF f(2) r]) simp
    with that[of f] f s' True show ?thesis by simp
  next
    case False
    then have "s' = ?s1\<lparr>disk := disk s, buckets_collection := ?buckets\<rparr>"
      using assms(3,4) nm n1 unfolding unf
      by (auto simp: Let_def delete_bucket_doc_def split: if_splits option.splits)
    with that[of "disk s"] False show ?thesis by simp
  qed
  have c1: "filter (\<lambda>f. f_bucket_id f = b_id bucket) (files_collection s') = []"
    by (simp add: fs2 delete_many_def filter_empty_conv)
  have c2: "\<not> os_path_exists (disk s') bucket_path" using gone by (simp add: fs2)
  have c3: "\<forall>rest. \<not> os_path_exists (disk s') (bucket_path @ ''/'' @ rest)"
    using not_exists_below[OF c2] by blast
  have did: "distinct (map b_id (buckets_collection s))" using k by (rule keys_ok_ids)
  have c4: "filter (\<lambda>b. b_id b = b_id bucket) (buckets_collection s') = []"
    using filter_delete_one_distinct[OF did, of "b_id bucket"] by (simp add: fs2)
  have c5: "find_bucket s' bucket_name user_id = None"
  proof -
    have "\<not> (b_name x = bucket_name \<and> b_user_id x = user_id)"
      if x: "x \<in> set ?buckets" for x
    proof
      assume a: "b_name x = bucket_name \<and> b_user_id x = user_id"
      have xs: "x \<in> set (buckets_collection s)"
        using x set_delete_one[of "\<lambda>b. b_id b = b_id bucket" "buckets_collection s"] by blast
      have "bkey x \<in> set ?K" using xs by simp
      then have xk: "(b_id x, bucket_name, user_id) \<in> set ?K" using a by (simp add: bkey_def)
      have "b_id x = b_id bucket" using keys_ok_same_name[OF k xk mem] .
      with x c4 show False by (auto simp: fs2 filter_empty_conv)
    qed
    then show ?thesis by (auto simp: find_bucket_def find_None_iff fs2)
  qed
  have c6: "delete_bucket DeleteManyRaises bucket_name user_id s = (Inl ErrorDeletingBucket, s)"
    unfolding unf by simp
  have c7: "delete_bucket DiskRaises bucket_name user_id s
              = (Inl ErrorDeletingBucket, s\<lparr>files_collection := files_collection s'\<rparr>)"
    if "os_path_exists (disk s) bucket_path"
    using that assms(4) unfolding unf by (simp add: Let_def fs2)
  have c8: "delete_bucket DeleteOneRaises bucket_name user_id s
           = (Inl ErrorDeletingBucket, s'\<lparr>buckets_collection := buckets_collection s\<rparr>)"
  proof (cases "os_path_exists (disk s) bucket_path")
    case True
    with ex have "rmtree (disk s) bucket_path = Some fs2" by simp
    with True assms(4) show ?thesis unfolding unf
      by (simp add: Let_def fs2 delete_bucket_doc_def)
  next
    case False
    with nex have "fs2 = disk s" by simp
    with False assms(4) show ?thesis unfolding unf
      by (simp add: Let_def fs2 delete_bucket_doc_def)
  qed
  from c1 c2 c3 c4 c5 c6 c7 c8 show ?thesis by blast
qed

subsection \<open>Round trip\<close>

lemma upload_file_success:
  assumes "upload_file flt bucket_name filename file_content content_type now user_id s = (Inr d, s')"
  shows "\<exists>b fs1. find_bucket s bucket_name user_id = Some b \<and>
           \<not> os_path_exists (disk s) (os_path_join (bucket_path_of user_id bucket_name) [filename]) \<and>
           write_file flt (disk s) (os_path_join (bucket_path_of user_id bucket_name) [filename])
             file_content = Inr fs1 \<and>
           f_bucket_id d = b_id b \<and> f_filename d = filename \<and>
           f_size d = int (length file_content) \<and>
           f_file_path d = os_path_join (bucket_path_of user_id bucket_name) [filename] \<and>
           disk s' = fs1 \<and>
           files_collection s' = files_collection s @ [d] \<and>
           buckets_collection s' =
             inc_stats (b_id b) 1 (int (length file_content)) (buckets_collection s)"
  using assms
  by (auto simp: upload_file_def Let_def upload_file_except_Inl
           split: option.splits if_splits sum.splits)

lemma find_append:
  "find P (xs @ ys) = (case find P xs of None \<Rightarrow> find P ys | Some x \<Rightarrow> Some x)"
  by (induction xs) auto

lemma find_bucket_after_inc:
  assumes "find_bucket s bn u = Some b"
    and "buckets_collection s' = inc_stats bid dc ds (buckets_collection s)"
  shows "\<exists>b'. find_bucket s' bn u = Some b' \<and> b_id b' = b_id b"
proof -
  have "map_option b_id (find_bucket s' bn u) = map_option b_id (find_bucket s bn u)"
    unfolding find_bucket_def assms(2) by (rule find_bucket_inc_stats)
  with assms(1) show ?thesis by auto
qed

lemma recorded_path_upload:
  assumes "f_file_path f = os_path_join (bucket_path_of u bn) [fn]"
  shows "recorded_path f u bn fn = os_path_join (bucket_path_of u bn) [fn]"
  using assms by (simp add: recorded_path_def bucket_path_of_def os_path_join_def)

text \<open>
  Claim C8. In a reachable state, a successful \<open>upload_file\<close> of a byte string followed
  by \<open>download_file\<close> of the same file name from the same bucket returns exactly the
  uploaded bytes; their length is the size recorded in the FileRecord that the upload
  inserted.
\<close>

theorem upload_download_roundtrip:
  assumes "reachable s"
    and "upload_file flt bucket_name filename file_content content_type now user_id s
           = (Inr file_doc, s')"
  shows "(\<exists>media_type.
            download_file bucket_name filename user_id s'
              = Inr (file_content, filename, media_type)) \<and>
         f_size file_doc = int (length file_content) \<and>
         file_doc \<in> set (files_collection s')"
proof -
  let ?fp = "os_path_join (bucket_path_of user_id bucket_name) [filename]"
  from upload_file_success[OF assms(2)] obtain b fs1 where
    b: "find_bucket s bucket_name user_id = Some b"
    and nex: "\<not> os_path_exists (disk s) ?fp"
    and w: "write_file flt (disk s) ?fp file_content = Inr fs1"
    and d: "f_bucket_id file_doc = b_id b" "f_filename file_doc = filename"
      "f_size file_doc = int (length file_content)" "f_file_path file_doc = ?fp"
    and s': "disk s' = fs1" "files_collection s' = files_collection s @ [file_doc]"
      "buckets_collection s' =
         inc_stats (b_id b) 1 (int (length file_content)) (buckets_collection s)"
    by blast
  from write_file_ok[OF w nex] obtain q where
    q: "resolve fs1 ?fp = Some q" "fs1 = (disk s)(q \<mapsto> File file_content)" "q \<noteq> []" by blast
  from find_bucket_after_inc[OF b s'(3)] obtain b' where
    b': "find_bucket s' bucket_name user_id = Some b'" "b_id b' = b_id b" by blast
  have inv: "reach_inv s" using assms(1) by (rule reachable_inv)
  have mem: "(b_id b, bucket_name, user_id) \<in> set (map bkey (buckets_collection s))"
    using b by (rule find_bucket_key)
  have old: "f_file_path f = ?fp"
    if "f \<in> set (files_collection s)" "f_bucket_id f = b_id b" "f_filename f = filename" for f
  proof -
    from inv that(1) have "file_ok (map bkey (buckets_collection s)) (next_oid s) f"
      by (simp add: reach_inv_def)
    then have "\<forall>k\<in>set (map bkey (buckets_collection s)). case k of (i, name, u) \<Rightarrow>
        i = f_bucket_id f \<longrightarrow> f_file_path f = os_path_join (bucket_path_of u name) [f_filename f]"
      by (simp add: file_ok_def)
    from bspec[OF this mem] that(2,3) show ?thesis by simp
  qed
  obtain f where f: "find_file s' (b_id b') filename = Some f" "f_file_path f = ?fp"
  proof (cases "find (\<lambda>f. f_bucket_id f = b_id b \<and> f_filename f = filename) (files_collection s)")
    case None
    then have "find_file s' (b_id b') filename = Some file_doc"
      using d b'(2) by (simp add: find_file_def s'(2) find_append)
    with that d(4) show ?thesis by blast
  next
    case (Some f0)
    then have "find_file s' (b_id b') filename = Some f0"
      using b'(2) by (simp add: find_file_def s'(2) find_append)
    moreover have "f0 \<in> set (files_collection s) \<and> f_bucket_id f0 = b_id b \<and> f_filename f0 = filename"
      using Some by (auto simp: find_Some_iff)
    ultimately show ?thesis using that old by blast
  qed
  have rp: "recorded_path f user_id bucket_name filename = ?fp"
    using f(2) by (rule recorded_path_upload)
  have ex: "os_path_exists (disk s') ?fp"
    using q by (simp add: os_path_exists_def node_at_def s'(1))
  have "download_file bucket_name filename user_id s'
          = Inr (file_content, filename, f_content_type f)"
    using b'(1) f(1) rp ex q
    by (simp add: download_file_def Let_def node_at_def s'(1))
  then show ?thesis using d(3) s'(2) by auto
qed

subsection \<open>The scenario states are reachable\<close>

lemma is_object_id_alice: "is_object_id alice"
  by (simp add: is_object_id_def alice_def)

lemma reachable_st_a: "reachable st_a"
  unfolding st_a_def by (intro reachable.intros is_object_id_alice)

lemma reachable_st_over: "reachable st_over"
  unfolding st_over_def st_b2_def st_gone_def st_alias_def st_ab_def
  by (intro reachable.intros reachable_st_a is_object_id_alice)

lemma st_a_roundtrip:
  "upload_file NoFault ''a'' ''x.txt'' ''hello'' (Some ''text/plain'') ''t1'' alice st_a
     = (Inr \<lparr>f_id = 1, f_filename = ''x.txt'', f_bucket_id = 0, f_bucket_name = ''a'',
              f_user_id = alice, f_size = 5, f_content_type = ''text/plain'',
              f_uploaded_at = ''t1'',
              f_file_path = ''/app/storage/64b7f0c2a1d3e4f5a6b7c8d9/a/x.txt''\<rparr>,
        snd (upload_file NoFault ''a'' ''x.txt'' ''hello'' (Some ''text/plain'') ''t1'' alice st_a))"
  by (simp add: st_a_eval eval_defs)

theorem upload_download_roundtrip_witness:
  "reachable st_a \<and>
   fst (upload_file NoFault ''a'' ''x.txt'' ''hello'' (Some ''text/plain'') ''t1'' alice st_a)
     = Inr \<lparr>f_id = 1, f_filename = ''x.txt'', f_bucket_id = 0, f_bucket_name = ''a'',
              f_user_id = alice, f_size = 5, f_content_type = ''text/plain'',
              f_uploaded_at = ''t1'',
              f_file_path = ''/app/storage/64b7f0c2a1d3e4f5a6b7c8d9/a/x.txt''\<rparr> \<and>
   (\<exists>media_type.
      download_file ''a'' ''x.txt'' alice
        (snd (upload_file NoFault ''a'' ''x.txt'' ''hello'' (Some ''text/plain'') ''t1'' alice st_a))
      = Inr (''hello'', ''x.txt'', media_type))"
proof -
  have f: "fst (upload_file NoFault ''a'' ''x.txt'' ''hello'' (Some ''text/plain'') ''t1'' alice st_a)
     = Inr \<lparr>f_id = 1, f_filename = ''x.txt'', f_bucket_id = 0, f_bucket_name = ''a'',
              f_user_id = alice, f_size = 5, f_content_type = ''text/plain'',
              f_uploaded_at = ''t1'',
              f_file_path = ''/app/storage/64b7f0c2a1d3e4f5a6b7c8d9/a/x.txt''\<rparr>"
    using st_a_roundtrip by (metis fst_conv)
  show ?thesis
    using reachable_st_a f upload_download_roundtrip[OF reachable_st_a st_a_roundtrip]
    by blast
qed

lemma st_over_delete_b:
  "find_bucket st_over ''b'' alice = Some (buckets_collection st_over ! 1) \<and>
   b_id (buckets_collection st_over ! 1) = 3 \<and>
   filter (\<lambda>f. f_bucket_id f = 3) (files_collection st_over) \<noteq> [] \<and>
   os_path_exists (disk st_over) (bucket_path_of alice ''b'' @ ''/'' @ ''x'') \<and>
   fst (delete_bucket NoFault ''b'' alice st_over) = Inr ()"
  by (simp add: st_over_eval fn_alias_def eval_defs)

theorem cascade_delete_witness:
  "reachable st_over \<and>
   find_bucket st_over ''b'' alice = Some (buckets_collection st_over ! 1) \<and>
   b_id (buckets_collection st_over ! 1) = 3 \<and>
   filter (\<lambda>f. f_bucket_id f = 3) (files_collection st_over) \<noteq> [] \<and>
   os_path_exists (disk st_over) (bucket_path_of alice ''b'' @ ''/'' @ ''x'') \<and>
   fst (delete_bucket NoFault ''b'' alice st_over) = Inr () \<and>
   filter (\<lambda>f. f_bucket_id f = 3)
     (files_collection (snd (delete_bucket NoFault ''b'' alice st_over))) = [] \<and>
   \<not> os_path_exists (disk (snd (delete_bucket NoFault ''b'' alice st_over)))
       (bucket_path_of alice ''b'') \<and>
   \<not> os_path_exists (disk (snd (delete_bucket NoFault ''b'' alice st_over)))
       (bucket_path_of alice ''b'' @ ''/'' @ ''x'') \<and>
   find_bucket (snd (delete_bucket NoFault ''b'' alice st_over)) ''b'' alice = None"
proof -
  note h = st_over_delete_b
  from h have fb: "find_bucket st_over ''b'' alice = Some (buckets_collection st_over ! 1)"
    and bid: "b_id (buckets_collection st_over ! 1) = 3" by blast+
  from h have ok: "delete_bucket NoFault ''b'' alice st_over
                     = (Inr (), snd (delete_bucket NoFault ''b'' alice st_over))"
    by (metis prod.collapse)
  from cascade_delete[OF reachable_st_over fb ok refl] bid h reachable_st_over
  show ?thesis by simp
qed

subsection \<open>Directories made by makedirs\<close>

lemma mk_chain_effect:
  "mk_chain fs cur cs = Some fs1 \<Longrightarrow>
     fs1 k = fs k \<or> (fs k = None \<and> fs1 k = Some Dir \<and> k \<in> set (chain_paths cur cs))"
proof (induction cs arbitrary: fs cur)
  case Nil
  then show ?case by simp
next
  case (Cons c cs)
  show ?case
  proof (cases "c = [] \<or> c = ''.''")
    case True
    with Cons.prems have "mk_chain fs cur cs = Some fs1" by auto
    from Cons.IH[OF this] True show ?thesis by auto
  next
    case False
    note nd = this
    show ?thesis
    proof (cases "c = ''..''")
      case True
      with Cons.prems have "mk_chain fs (butlast cur) cs = Some fs1" by auto
      from Cons.IH[OF this] True show ?thesis by auto
    next
      case False
      let ?n = "cur @ [c]"
      have ne: "?n \<noteq> []" by simp
      show ?thesis
      proof (cases "fs ?n")
        case None
        with nd False Cons.prems have "mk_chain (fs(?n \<mapsto> Dir)) ?n cs = Some fs1"
          by (simp add: node_at_def)
        from Cons.IH[OF this] nd False None show ?thesis
          by (cases "k = ?n") auto
      next
        case (Some nd')
        with nd False Cons.prems have "nd' = Dir \<and> mk_chain fs ?n cs = Some fs1"
          by (cases nd') (auto simp: node_at_def)
        then have "mk_chain fs ?n cs = Some fs1" by simp
        from Cons.IH[OF this] nd False show ?thesis by auto
      qed
    qed
  qed
qed

lemma makedirs_bucket_effect:
  assumes "plain u" "plain n" "os_makedirs fs (bucket_path_of u n) = Some fs1"
  shows "fs1 k = fs k \<or>
         (fs k = None \<and> fs1 k = Some Dir \<and>
          k \<in> {[''app''], [''app'', ''storage''], [''app'', ''storage'', u],
                [''app'', ''storage'', u, n]})"
proof -
  from assms(3) have m: "mk_chain fs [] (split_sep (bucket_path_of u n)) = Some fs1"
    by (auto simp: os_makedirs_def split: if_splits)
  have "set (chain_paths [] (split_sep (bucket_path_of u n))) =
          {[''app''], [''app'', ''storage''], [''app'', ''storage'', u],
           [''app'', ''storage'', u, n]}"
    using assms(1,2) by (simp add: split_bucket_path plain_def)
  with mk_chain_effect[OF m, of k] show ?thesis by simp
qed

subsection \<open>Blobs under changes of the disk\<close>

lemma blob_okD:
  assumes "blob_ok fs f"
  obtains q body where "blob_of fs f = Some q" "q \<noteq> []" "fs q = Some (File body)"
    "int (length body) = f_size f"
proof -
  from assms obtain q where q: "blob_of fs f = Some q"
    by (auto simp: blob_ok_def split: option.splits)
  with assms obtain body where b: "node_at fs q = Some (File body)" "int (length body) = f_size f"
    by (auto simp: blob_ok_def split: option.splits node.splits)
  then have "q \<noteq> []" "fs q = Some (File body)" by (auto simp: node_at_def split: if_splits)
  with q b that show thesis by blast
qed

lemma blob_keep:
  assumes "blob_ok fs f"
    and dirs: "\<And>k. fs k = Some Dir \<Longrightarrow> fs' k = Some Dir"
    and keep: "\<And>q. blob_of fs f = Some q \<Longrightarrow> fs' q = fs q"
  shows "blob_of fs' f = blob_of fs f \<and> blob_ok fs' f"
proof -
  from assms(1) obtain q body where q: "blob_of fs f = Some q" "q \<noteq> []"
    "fs q = Some (File body)" "int (length body) = f_size f" by (rule blob_okD)
  have "is_dir fs k \<Longrightarrow> is_dir fs' k" for k using dirs by (auto simp: is_dir_def)
  with q(1) have r: "blob_of fs' f = Some q" unfolding blob_of_def by (rule resolve_mono)
  moreover have "fs' q = Some (File body)" using keep[OF q(1)] q(3) by simp
  ultimately show ?thesis using q by (simp add: blob_ok_def node_at_def)
qed

lemma blobs_keep:
  assumes ok: "\<forall>f\<in>set fl. blob_ok fs f"
    and dirs: "\<And>k. fs k = Some Dir \<Longrightarrow> fs' k = Some Dir"
    and keep: "\<And>f q. f \<in> set fl \<Longrightarrow> blob_of fs f = Some q \<Longrightarrow> fs' q = fs q"
  shows "(\<forall>f\<in>set fl. blob_ok fs' f) \<and> map (blob_of fs') fl = map (blob_of fs) fl"
  using blob_keep[of fs _ fs'] assms by (simp add: map_eq_conv)

subsection \<open>The aggregates\<close>

lemma inc_stats_map:
  assumes "distinct (map b_id bs)"
  shows "inc_stats bid dc ds bs =
           map (\<lambda>b. if b_id b = bid
                     then b\<lparr>b_file_count := b_file_count b + dc,
                             b_total_size := b_total_size b + ds\<rparr>
                     else b) bs"
  using assms
proof (induction bs)
  case Nil
  then show ?case by (simp add: inc_stats_def)
next
  case (Cons a bs)
  show ?case
  proof (cases "b_id a = bid")
    case True
    with Cons.prems have "\<forall>b\<in>set bs. b_id b \<noteq> bid" by (auto simp: image_iff)
    then have "map (\<lambda>b. if b_id b = bid
                     then b\<lparr>b_file_count := b_file_count b + dc,
                             b_total_size := b_total_size b + ds\<rparr>
                     else b) bs = bs"
      by (simp add: map_idI)
    with True show ?thesis by (simp add: inc_stats_def)
  next
    case False
    with Cons show ?thesis by (simp add: inc_stats_def)
  qed
qed

lemma delete_one_sum:
  fixes g :: "'a \<Rightarrow> int"
  assumes "distinct (map h xs)" "x \<in> set xs"
  shows "sum_list (map g (filter P (delete_one (\<lambda>y. h y = h x) xs)))
           = sum_list (map g (filter P xs)) - (if P x then g x else 0)"
  using assms
proof (induction xs)
  case Nil
  then show ?case by simp
next
  case (Cons a xs)
  show ?case
  proof (cases "h a = h x")
    case True
    have "a = x"
    proof (rule ccontr)
      assume "a \<noteq> x"
      with Cons.prems(2) have "x \<in> set xs" by auto
      then have "h x \<in> h ` set xs" by (rule imageI)
      with True Cons.prems(1) show False by simp
    qed
    with True show ?thesis by simp
  next
    case False
    then have "x \<in> set xs" using Cons.prems(2) by auto
    with Cons False show ?thesis by simp
  qed
qed

lemma length_as_sum: "int (length xs) = sum_list (map (\<lambda>_. 1) xs)"
  by (induction xs) auto

lemma delete_one_length:
  assumes "distinct (map h xs)" "x \<in> set xs"
  shows "int (length (filter P (delete_one (\<lambda>y. h y = h x) xs)))
           = int (length (filter P xs)) - (if P x then 1 else 0)"
  unfolding length_as_sum using delete_one_sum[OF assms, of "\<lambda>_. 1" P] .

subsection \<open>create_bucket keeps the invariant\<close>

lemma create_bucket_nofault_cases:
  assumes "snd (create_bucket NoFault name description now user_id s) = s'"
  shows "s' = s \<or>
         (valid_bucket_name name \<and> find_bucket s name user_id = None \<and>
          os_path_exists (disk s) (bucket_path_of user_id name) \<and>
          (\<exists>fs'. rmtree (disk s) (bucket_path_of user_id name) = Some fs')) \<or>
         (valid_bucket_name name \<and> find_bucket s name user_id = None \<and>
          (\<exists>fs1. os_makedirs (disk s) (bucket_path_of user_id name) = Some fs1 \<and>
             s' = s\<lparr>disk := fs1,
                    buckets_collection := buckets_collection s @
                      [\<lparr>b_id = next_oid s, b_name = name, b_description = description,
                        b_user_id = user_id, b_created_at = now, b_file_count = 0,
                        b_total_size = 0\<rparr>],
                    next_oid := next_oid s + 1\<rparr>))"
  using assms
  by (auto simp: create_bucket_def create_bucket_except_def Let_def valid_bucket_name_def
           split: if_splits option.splits)

lemma rmtree_Some_dir:
  assumes "rmtree fs p = Some fs'" "resolve fs p = Some q" "q \<noteq> []"
  shows "fs q = Some Dir"
  using assms by (auto simp: rmtree_def node_at_def split: option.splits node.splits if_splits)

lemma no_stray_bucket_dir:
  assumes "dirs_ok (disk s) (map bkey (buckets_collection s))"
    and "find_bucket s name user_id = None"
    and "plain user_id" "plain name"
    and "os_path_exists (disk s) (bucket_path_of user_id name)"
  shows "rmtree (disk s) (bucket_path_of user_id name) = None"
proof (rule ccontr)
  assume "rmtree (disk s) (bucket_path_of user_id name) \<noteq> None"
  then obtain fs' where r: "rmtree (disk s) (bucket_path_of user_id name) = Some fs'" by auto
  let ?q = "[''app'', ''storage'', user_id, name]"
  from assms(5) have res: "resolve (disk s) (bucket_path_of user_id name) = Some ?q"
    unfolding os_path_exists_def resolve_bucket_path[OF assms(3,4)] by (auto split: if_splits)
  from rmtree_Some_dir[OF r res] have d: "disk s ?q = Some Dir" by simp
  from assms(1) d have "\<exists>(i, n, u)\<in>set (map bkey (buckets_collection s)).
      ?q = [''app'', ''storage'', u] \<or> ?q = [''app'', ''storage'', u, n]"
    unfolding dirs_ok_def by blast
  then obtain k where k: "k \<in> set (map bkey (buckets_collection s))"
    "case k of (i, n, u) \<Rightarrow> ?q = [''app'', ''storage'', u] \<or> ?q = [''app'', ''storage'', u, n]"
    by blast
  obtain i n u where kk: "k = (i, n, u)" by (cases k)
  with k(2) have "n = name \<and> u = user_id" by simp
  with k(1) kk have "(i, name, user_id) \<in> set (map bkey (buckets_collection s))" by simp
  with find_bucket_None_key[OF assms(2), of i] show False by simp
qed

lemma store_inv_create_bucket:
  assumes "store_inv s" "is_object_id user_id"
  shows "store_inv (snd (create_bucket NoFault name description now user_id s))"
proof -
  let ?s' = "snd (create_bucket NoFault name description now user_id s)"
  let ?K = "map bkey (buckets_collection s)"
  let ?bp = "bucket_path_of user_id name"
  have ri: "reach_inv s" and ag: "aggregates_consistent s"
    and dk: "dirs_ok (disk s) ?K"
    and bl: "\<forall>f\<in>set (files_collection s). blob_ok (disk s) f"
    using assms(1) by (simp_all add: store_inv_def)
  have ri': "reach_inv ?s'" using ri assms(2) by (rule reach_inv_create_bucket)
  have pu: "plain user_id" using assms(2) by (rule is_object_id_plain)
  from create_bucket_nofault_cases[OF refl, of name description now user_id s]
  show ?thesis
  proof (elim disjE conjE exE)
    assume "?s' = s"
    with assms(1) show ?thesis by simp
  next
    fix fs'
    assume stray: "valid_bucket_name name" "find_bucket s name user_id = None"
        "os_path_exists (disk s) ?bp" "rmtree (disk s) ?bp = Some fs'"
    from no_stray_bucket_dir[OF dk stray(2) pu valid_bucket_name_plain[OF stray(1)] stray(3)]
      stray(4) show ?thesis by simp
  next
    fix fs1
    assume made: "valid_bucket_name name" "find_bucket s name user_id = None"
        "os_makedirs (disk s) ?bp = Some fs1"
        "?s' = s\<lparr>disk := fs1,
                    buckets_collection := buckets_collection s @
                      [\<lparr>b_id = next_oid s, b_name = name, b_description = description,
                        b_user_id = user_id, b_created_at = now, b_file_count = 0,
                        b_total_size = 0\<rparr>],
                    next_oid := next_oid s + 1\<rparr>"
    let ?doc = "\<lparr>b_id = next_oid s, b_name = name, b_description = description,
                        b_user_id = user_id, b_created_at = now, b_file_count = 0,
                        b_total_size = 0\<rparr>"
    note s' = made(4)
    have pn: "plain name" using made(1) by (rule valid_bucket_name_plain)
    note eff = makedirs_bucket_effect[OF pu pn made(3)]
    have ext: "fs1 k = disk s k" if "disk s k \<noteq> None" for k using eff[of k] that by auto
    have fresh: "\<forall>f\<in>set (files_collection s). f_bucket_id f < next_oid s"
      using ri by (simp add: reach_inv_def file_ok_def)
    have "records_of ?s' (next_oid s) = []"
      using fresh by (fastforce simp: records_of_def s' filter_empty_conv)
    moreover have "records_of ?s' i = records_of s i" for i by (simp add: records_of_def s')
    ultimately have ag': "aggregates_consistent ?s'"
      using ag by (auto simp: aggregates_consistent_def s')
    have ids': "\<forall>f\<in>set (files_collection ?s'). f_id f < next_oid ?s'"
      using assms(1) by (auto simp: store_inv_def s')
    have dis': "distinct (map f_id (files_collection ?s'))"
      using assms(1) by (simp add: store_inv_def s')
    have bk: "(\<forall>f\<in>set (files_collection s). blob_ok fs1 f) \<and>
              map (blob_of fs1) (files_collection s) = map (blob_of (disk s)) (files_collection s)"
    proof (rule blobs_keep[OF bl])
      show "fs1 k = Some Dir" if "disk s k = Some Dir" for k using ext[of k] that by simp
    next
      fix f q assume f: "f \<in> set (files_collection s)" and q: "blob_of (disk s) f = Some q"
      from bl f have "blob_ok (disk s) f" by blast
      then obtain q' body where "blob_of (disk s) f = Some q'" "disk s q' = Some (File body)"
        by (rule blob_okD)
      with q have "disk s q \<noteq> None" by simp
      then show "fs1 q = disk s q" by (rule ext)
    qed
    have bl': "\<forall>f\<in>set (files_collection ?s'). blob_ok (disk ?s') f"
      using bk by (simp add: s')
    from bk have eqm: "map (blob_of fs1) (files_collection s)
                         = map (blob_of (disk s)) (files_collection s)" by (rule conjunct2)
    have bd': "distinct (map (blob_of (disk ?s')) (files_collection ?s'))"
      using assms(1) by (simp add: s' store_inv_def eqm)
    have K': "map bkey (buckets_collection ?s') = ?K @ [(next_oid s, name, user_id)]"
      by (simp add: s' bkey_def)
    have dk': "dirs_ok (disk ?s') (map bkey (buckets_collection ?s'))"
      unfolding K' dirs_ok_def
    proof (intro allI impI)
      fix p assume "disk ?s' p = Some Dir"
      then have p: "fs1 p = Some Dir" by (simp add: s')
      from eff[of p] p consider "disk s p = Some Dir"
        | "p \<in> {[''app''], [''app'', ''storage''], [''app'', ''storage'', user_id],
                [''app'', ''storage'', user_id, name]}" by auto
      then show "p = [''app''] \<or> p = [''app'', ''storage''] \<or>
        (\<exists>(i, n, u)\<in>set (?K @ [(next_oid s, name, user_id)]).
           p = [''app'', ''storage'', u] \<or> p = [''app'', ''storage'', u, n])"
      proof cases
        case 1
        with dk have "p = [''app''] \<or> p = [''app'', ''storage''] \<or>
          (\<exists>(i, n, u)\<in>set ?K. p = [''app'', ''storage'', u] \<or> p = [''app'', ''storage'', u, n])"
          unfolding dirs_ok_def by blast
        then show ?thesis by auto
      next
        case 2
        then show ?thesis by auto
      qed
    qed
    from ri' ag' ids' dis' bl' bd' dk' show ?thesis by (simp add: store_inv_def)
  qed
qed

subsection \<open>upload_file keeps the invariant\<close>

lemma upload_file_nofault_cases:
  assumes "snd (upload_file NoFault bucket_name filename file_content content_type now user_id s) = s'"
  shows "s' = s \<or>
         (\<exists>b q d. find_bucket s bucket_name user_id = Some b \<and>
            resolve (disk s) (os_path_join (bucket_path_of user_id bucket_name) [filename]) = Some q \<and>
            disk s q = None \<and> q \<noteq> [] \<and>
            f_id d = next_oid s \<and> f_bucket_id d = b_id b \<and>
            f_size d = int (length file_content) \<and>
            f_file_path d = os_path_join (bucket_path_of user_id bucket_name) [filename] \<and>
            s' = s\<lparr>disk := (disk s)(q \<mapsto> File file_content),
                   files_collection := files_collection s @ [d],
                   next_oid := next_oid s + 1,
                   buckets_collection :=
                     inc_stats (b_id b) 1 (int (length file_content)) (buckets_collection s)\<rparr>)"
proof (cases "find_bucket s bucket_name user_id")
  case None
  with assms show ?thesis by (simp add: upload_file_def)
next
  case (Some b)
  let ?fp = "os_path_join (bucket_path_of user_id bucket_name) [filename]"
  show ?thesis
  proof (cases "check_storage_limit s user_id (int (length file_content)) \<and>
                \<not> os_path_exists (disk s) ?fp")
    case False
    with Some assms show ?thesis by (auto simp: upload_file_def Let_def)
  next
    case True
    show ?thesis
    proof (cases "open_wb (disk s) ?fp")
      case None
      then have "write_file NoFault (disk s) ?fp file_content = Inl (disk s)"
        by (simp add: write_file_def)
      with Some True assms have "s' = s"
        by (simp add: upload_file_def Let_def upload_file_except_def)
      then show ?thesis by simp
    next
      case (Some q)
      then have w: "write_file NoFault (disk s) ?fp file_content
                      = Inr ((disk s)(q \<mapsto> File file_content))"
        by (simp add: write_file_def)
      from Some have r: "resolve (disk s) ?fp = Some q"
        by (auto simp: open_wb_def split: option.splits if_splits)
      from True r have n: "disk s q = None \<and> q \<noteq> []"
        using not_exists_resolved by blast
      let ?d = "\<lparr>f_id = next_oid s, f_filename = filename,
                           f_bucket_id = b_id b, f_bucket_name = bucket_name,
                           f_user_id = user_id, f_size = int (length file_content),
                           f_content_type =
                             (case content_type of
                                None \<Rightarrow> ''application/octet-stream''
                              | Some t \<Rightarrow> if t = [] then ''application/octet-stream'' else t),
                           f_uploaded_at = now, f_file_path = ?fp\<rparr>"
      have e: "s' = s\<lparr>disk := (disk s)(q \<mapsto> File file_content),
                   files_collection := files_collection s @ [?d],
                   next_oid := next_oid s + 1,
                   buckets_collection :=
                     inc_stats (b_id b) 1 (int (length file_content)) (buckets_collection s)\<rparr>"
        using \<open>find_bucket s bucket_name user_id = Some b\<close> True w assms
        by (simp add: upload_file_def Let_def)
      show ?thesis
        apply (rule disjI2)
        apply (rule exI[of _ b], rule exI[of _ q], rule exI[of _ ?d])
        using \<open>find_bucket s bucket_name user_id = Some b\<close> r n e
        apply simp
        done
    qed
  qed
qed

lemma store_inv_upload_file:
  assumes "store_inv s"
  shows "store_inv (snd (upload_file NoFault bucket_name filename file_content content_type
                           now user_id s))"
proof -
  let ?s' = "snd (upload_file NoFault bucket_name filename file_content content_type now user_id s)"
  let ?fp = "os_path_join (bucket_path_of user_id bucket_name) [filename]"
  let ?fs = "disk s"
  have ri: "reach_inv s" and ag: "aggregates_consistent s"
    and dk: "dirs_ok ?fs (map bkey (buckets_collection s))"
    and bl: "\<forall>f\<in>set (files_collection s). blob_ok ?fs f"
    and ids: "\<forall>f\<in>set (files_collection s). f_id f < next_oid s"
    and dis: "distinct (map f_id (files_collection s))"
    and bd: "distinct (map (blob_of ?fs) (files_collection s))"
    using assms(1) by (simp_all add: store_inv_def)
  have ri': "reach_inv ?s'" using ri by (rule reach_inv_upload_file)
  from upload_file_nofault_cases[OF refl, of bucket_name filename file_content content_type now user_id s]
  show ?thesis
  proof (elim disjE conjE exE)
    assume "?s' = s"
    with assms show ?thesis by simp
  next
    fix b :: bucket_doc and q and d :: file_doc
    assume b: "find_bucket s bucket_name user_id = Some b"
      and r: "resolve ?fs ?fp = Some q" and qn: "?fs q = None" and q0: "q \<noteq> []"
      and d: "f_id d = next_oid s" "f_bucket_id d = b_id b"
        "f_size d = int (length file_content)" "f_file_path d = ?fp"
      and s': "?s' = s\<lparr>disk := ?fs(q \<mapsto> File file_content),
                   files_collection := files_collection s @ [d],
                   next_oid := next_oid s + 1,
                   buckets_collection :=
                     inc_stats (b_id b) 1 (int (length file_content)) (buckets_collection s)\<rparr>"
    let ?fs1 = "?fs(q \<mapsto> File file_content)"
    have did: "distinct (map b_id (buckets_collection s))"
      using ri by (auto simp: reach_inv_def intro: keys_ok_ids)
    note bm = inc_stats_map[OF did, of "b_id b" 1 "int (length file_content)"]
    have rec: "records_of ?s' i = records_of s i @ (if b_id b = i then [d] else [])" for i
      using d(2) by (auto simp: records_of_def s')
    have ag': "aggregates_consistent ?s'"
      unfolding aggregates_consistent_def
    proof
      fix b' assume "b' \<in> set (buckets_collection ?s')"
      then obtain b0 where b0: "b0 \<in> set (buckets_collection s)"
        and b': "b' = (if b_id b0 = b_id b
                     then b0\<lparr>b_file_count := b_file_count b0 + 1,
                             b_total_size := b_total_size b0 + int (length file_content)\<rparr>
                     else b0)"
        by (auto simp: s' bm)
      from ag b0 have a0: "b_file_count b0 = int (length (records_of s (b_id b0)))"
        "b_total_size b0 = sum_list (map f_size (records_of s (b_id b0)))"
        by (simp_all add: aggregates_consistent_def)
      show "b_file_count b' = int (length (records_of ?s' (b_id b'))) \<and>
            b_total_size b' = sum_list (map f_size (records_of ?s' (b_id b')))"
        using a0 d(3) by (simp add: b' rec)
    qed
    have ids': "\<forall>f\<in>set (files_collection ?s'). f_id f < next_oid ?s'"
      using ids d(1) by (auto simp: s')
    have "next_oid s \<notin> f_id ` set (files_collection s)" using ids by auto
    then have dis': "distinct (map f_id (files_collection ?s'))"
      using dis d(1) by (simp add: s')
    have bk: "(\<forall>f\<in>set (files_collection s). blob_ok ?fs1 f) \<and>
              map (blob_of ?fs1) (files_collection s) = map (blob_of ?fs) (files_collection s)"
    proof (rule blobs_keep[OF bl])
      show "?fs1 k = Some Dir" if "?fs k = Some Dir" for k using that qn by auto
    next
      fix f q' assume f: "f \<in> set (files_collection s)" and q': "blob_of ?fs f = Some q'"
      from bl f have "blob_ok ?fs f" by blast
      then obtain q'' body where "blob_of ?fs f = Some q''" "?fs q'' = Some (File body)"
        by (rule blob_okD)
      with q' qn have "q' \<noteq> q" by auto
      then show "?fs1 q' = ?fs q'" by simp
    qed
    from bk have eqm: "map (blob_of ?fs1) (files_collection s)
                         = map (blob_of ?fs) (files_collection s)" by (rule conjunct2)
    have rd: "blob_of ?fs1 d = Some q"
      unfolding blob_of_def d(4)
      by (rule resolve_mono[OF r]) (use qn in \<open>auto simp: is_dir_def\<close>)
    have okd: "blob_ok ?fs1 d" using rd q0 d(3) by (simp add: blob_ok_def node_at_def)
    have bl': "\<forall>f\<in>set (files_collection ?s'). blob_ok (disk ?s') f"
      using bk okd by (auto simp: s')
    have "Some q \<notin> set (map (blob_of ?fs) (files_collection s))"
    proof
      assume "Some q \<in> set (map (blob_of ?fs) (files_collection s))"
      then obtain f where f: "f \<in> set (files_collection s)" "blob_of ?fs f = Some q" by auto
      from bl f(1) have "blob_ok ?fs f" by blast
      then obtain q'' body where "blob_of ?fs f = Some q''" "?fs q'' = Some (File body)"
        by (rule blob_okD)
      with f(2) qn show False by simp
    qed
    then have bd': "distinct (map (blob_of (disk ?s')) (files_collection ?s'))"
      using bd by (simp add: s' eqm rd)
    have dk': "dirs_ok (disk ?s') (map bkey (buckets_collection ?s'))"
      using dk by (auto simp: dirs_ok_def s' split: if_splits)
    from ri' ag' ids' dis' bl' bd' dk' show ?thesis by (simp add: store_inv_def)
  qed
qed

subsection \<open>delete_file keeps the invariant\<close>

lemma blob_ok_path_not_empty:
  assumes "blob_ok fs f"
  shows "f_file_path f \<noteq> []"
proof
  assume "f_file_path f = []"
  then have "blob_of fs f = Some []" by (simp add: blob_of_def resolve_def is_dir_def)
  moreover from assms obtain q body where "blob_of fs f = Some q" "q \<noteq> []" by (rule blob_okD)
  ultimately show False by simp
qed

lemma delete_one_filter:
  assumes "distinct (map h xs)" "x \<in> set xs"
  shows "delete_one (\<lambda>y. h y = h x) xs = filter (\<lambda>y. h y \<noteq> h x) xs"
  using assms
proof (induction xs)
  case Nil
  then show ?case by simp
next
  case (Cons a xs)
  show ?case
  proof (cases "h a = h x")
    case True
    from Cons.prems(1) have "h a \<notin> h ` set xs" by simp
    with True have "\<forall>y\<in>set xs. h y \<noteq> h x" by (auto simp: image_iff)
    then have "filter (\<lambda>y. h y \<noteq> h x) xs = xs" by (simp add: filter_id_conv)
    with True show ?thesis by simp
  next
    case False
    then have "x \<in> set xs" using Cons.prems(2) by auto
    with Cons False show ?thesis by simp
  qed
qed

lemma delete_file_nofault_cases:
  assumes "store_inv s"
    and "snd (delete_file NoFault bucket_name filename user_id s) = s'"
  shows "s' = s \<or>
         (\<exists>b f q. find_bucket s bucket_name user_id = Some b \<and>
            f \<in> set (files_collection s) \<and> f_bucket_id f = b_id b \<and>
            blob_of (disk s) f = Some q \<and>
            s' = s\<lparr>disk := (disk s)(q := None),
                   files_collection :=
                     delete_one (\<lambda>x. f_id x = f_id f) (files_collection s),
                   buckets_collection :=
                     inc_stats (b_id b) (- 1) (- f_size f) (buckets_collection s)\<rparr>)"
proof (cases "find_bucket s bucket_name user_id")
  case None
  with assms(2) show ?thesis by (simp add: delete_file_def)
next
  case (Some b)
  note b = this
  show ?thesis
  proof (cases "find_file s (b_id b) filename")
    case None
    with b assms(2) show ?thesis by (simp add: delete_file_def Let_def)
  next
    case (Some f)
    then have fm: "f \<in> set (files_collection s)" and fb: "f_bucket_id f = b_id b"
      by (auto simp: find_file_def find_Some_iff)
    from assms(1) fm have ok: "blob_ok (disk s) f" by (simp add: store_inv_def)
    then obtain q body where q: "blob_of (disk s) f = Some q" "q \<noteq> []"
      "disk s q = Some (File body)" "int (length body) = f_size f" by (rule blob_okD)
    have rp: "recorded_path f user_id bucket_name filename = f_file_path f"
      using blob_ok_path_not_empty[OF ok] by (simp add: recorded_path_def)
    have m: "measure_and_remove NoFault (disk s) (f_file_path f) f
               = Some (f_size f, (disk s)(q := None))"
      using q by (simp add: measure_and_remove_def os_path_exists_def os_path_getsize_def
                    os_remove_def node_at_def blob_of_def)
    have e: "s' = s\<lparr>disk := (disk s)(q := None),
                   files_collection :=
                     delete_one (\<lambda>x. f_id x = f_id f) (files_collection s),
                   buckets_collection :=
                     inc_stats (b_id b) (- 1) (- f_size f) (buckets_collection s)\<rparr>"
      using b Some rp m assms(2) by (simp add: delete_file_def Let_def)
    show ?thesis
      apply (rule disjI2)
      apply (rule exI[of _ b], rule exI[of _ f], rule exI[of _ q])
      using b fm fb q(1) e
      apply simp
      done
  qed
qed

lemma store_inv_delete_file:
  assumes "store_inv s"
  shows "store_inv (snd (delete_file NoFault bucket_name filename user_id s))"
proof -
  let ?s' = "snd (delete_file NoFault bucket_name filename user_id s)"
  let ?fs = "disk s"
  have ri: "reach_inv s" and ag: "aggregates_consistent s"
    and dk: "dirs_ok ?fs (map bkey (buckets_collection s))"
    and bl: "\<forall>f\<in>set (files_collection s). blob_ok ?fs f"
    and ids: "\<forall>f\<in>set (files_collection s). f_id f < next_oid s"
    and dis: "distinct (map f_id (files_collection s))"
    and bd: "distinct (map (blob_of ?fs) (files_collection s))"
    using assms(1) by (simp_all add: store_inv_def)
  have ri': "reach_inv ?s'" using ri by (rule reach_inv_delete_file)
  from delete_file_nofault_cases[OF assms refl, of bucket_name filename user_id]
  show ?thesis
  proof (elim disjE conjE exE)
    assume "?s' = s"
    with assms show ?thesis by simp
  next
    fix b :: bucket_doc and f :: file_doc and q
    assume b: "find_bucket s bucket_name user_id = Some b"
      and fm: "f \<in> set (files_collection s)" and fb: "f_bucket_id f = b_id b"
      and q: "blob_of ?fs f = Some q"
      and s': "?s' = s\<lparr>disk := ?fs(q := None),
                   files_collection :=
                     delete_one (\<lambda>x. f_id x = f_id f) (files_collection s),
                   buckets_collection :=
                     inc_stats (b_id b) (- 1) (- f_size f) (buckets_collection s)\<rparr>"
    let ?fs1 = "?fs(q := None)"
    let ?fl = "filter (\<lambda>y. f_id y \<noteq> f_id f) (files_collection s)"
    have fl: "delete_one (\<lambda>x. f_id x = f_id f) (files_collection s) = ?fl"
      using dis fm by (rule delete_one_filter)
    from bl fm have "blob_ok ?fs f" by blast
    then obtain q' body where "blob_of ?fs f = Some q'" "?fs q' = Some (File body)"
      by (rule blob_okD)
    with q have qf: "?fs q = Some (File body)" by simp
    have did: "distinct (map b_id (buckets_collection s))"
      using ri by (auto simp: reach_inv_def intro: keys_ok_ids)
    note bm = inc_stats_map[OF did, of "b_id b" "- 1" "- f_size f"]
    have len: "int (length (records_of ?s' i))
                 = int (length (records_of s i)) - (if b_id b = i then 1 else 0)" for i
      using delete_one_length[OF dis fm, of "\<lambda>x. f_bucket_id x = i"] fb
      by (simp add: records_of_def s')
    have sm: "sum_list (map f_size (records_of ?s' i))
                 = sum_list (map f_size (records_of s i)) - (if b_id b = i then f_size f else 0)"
      for i
      using delete_one_sum[OF dis fm, of f_size "\<lambda>x. f_bucket_id x = i"] fb
      by (simp add: records_of_def s')
    have ag': "aggregates_consistent ?s'"
      unfolding aggregates_consistent_def
    proof
      fix b' assume "b' \<in> set (buckets_collection ?s')"
      then obtain b0 where b0: "b0 \<in> set (buckets_collection s)"
        and b': "b' = (if b_id b0 = b_id b
                     then b0\<lparr>b_file_count := b_file_count b0 + - 1,
                             b_total_size := b_total_size b0 + - f_size f\<rparr>
                     else b0)"
        by (auto simp: s' bm)
      from ag b0 have a0: "b_file_count b0 = int (length (records_of s (b_id b0)))"
        "b_total_size b0 = sum_list (map f_size (records_of s (b_id b0)))"
        by (simp_all add: aggregates_consistent_def)
      show "b_file_count b' = int (length (records_of ?s' (b_id b'))) \<and>
            b_total_size b' = sum_list (map f_size (records_of ?s' (b_id b')))"
        using a0 by (simp add: b' len sm)
    qed
    have ids': "\<forall>f\<in>set (files_collection ?s'). f_id f < next_oid ?s'"
      using ids by (auto simp: s' fl)
    have dis': "distinct (map f_id (files_collection ?s'))"
      using dis by (simp add: s' fl distinct_map_filter)
    have inj: "inj_on (blob_of ?fs) (set (files_collection s))"
      using bd by (simp add: distinct_map)
    have other: "blob_of ?fs g \<noteq> Some q" if "g \<in> set ?fl" for g
    proof
      assume "blob_of ?fs g = Some q"
      with q have "blob_of ?fs g = blob_of ?fs f" by simp
      moreover from that have "g \<in> set (files_collection s)" "f_id g \<noteq> f_id f" by auto
      ultimately show False using inj_onD[OF inj _ _ fm] by auto
    qed
    have blf: "\<forall>g\<in>set ?fl. blob_ok ?fs g" using bl by auto
    have bk: "(\<forall>g\<in>set ?fl. blob_ok ?fs1 g) \<and> map (blob_of ?fs1) ?fl = map (blob_of ?fs) ?fl"
    proof (rule blobs_keep[OF blf])
      show "?fs1 k = Some Dir" if "?fs k = Some Dir" for k using that qf by auto
    next
      fix g q' assume "g \<in> set ?fl" "blob_of ?fs g = Some q'"
      with other[of g] have "q' \<noteq> q" by auto
      then show "?fs1 q' = ?fs q'" by simp
    qed
    from bk have eqm: "map (blob_of ?fs1) ?fl = map (blob_of ?fs) ?fl" by (rule conjunct2)
    have bl': "\<forall>f\<in>set (files_collection ?s'). blob_ok (disk ?s') f"
      using bk by (simp add: s' fl)
    have bd': "distinct (map (blob_of (disk ?s')) (files_collection ?s'))"
      using bd by (simp add: s' fl eqm distinct_map_filter)
    have dk': "dirs_ok (disk ?s') (map bkey (buckets_collection ?s'))"
      using dk by (auto simp: dirs_ok_def s' split: if_splits)
    from ri' ag' ids' dis' bl' bd' dk' show ?thesis by (simp add: store_inv_def)
  qed
qed

subsection \<open>Invariant I1\<close>

lemma store_inv_init: "store_inv init_state"
proof -
  have "aggregates_consistent init_state" "dirs_ok (disk init_state) []"
    "files_collection init_state = []" "buckets_collection init_state = []"
    by (simp_all add: aggregates_consistent_def dirs_ok_def init_state_def init_disk_def)
  with reach_inv_init show ?thesis by (simp add: store_inv_def)
qed

lemma store_inv_perform:
  assumes "store_inv s" "is_object_id (requester r)"
  shows "store_inv (perform r s)"
  using assms
  by (cases r) (simp_all add: store_inv_create_bucket store_inv_upload_file store_inv_delete_file)

lemma store_inv_run:
  "store_inv s \<Longrightarrow> \<forall>r\<in>set rs. is_object_id (requester r) \<Longrightarrow> store_inv (run rs s)"
  unfolding run_def
  by (induction rs arbitrary: s) (simp_all add: store_inv_perform)

text \<open>
  Claim C1. For every sequence of CreateBucket, UploadFile and DeleteFile requests of
  authenticated owners, run from the initial state with backing stores that do not fail,
  and after every request of the sequence (after the first \<open>n\<close>, for every \<open>n\<close>): for every
  bucket document, \<open>file_count\<close> is the number of FileRecords whose \<open>bucket_id\<close> is the
  id of the bucket and \<open>total_size\<close> is the sum of their sizes.
\<close>

theorem aggregates_invariant:
  assumes "list_all (\<lambda>r. is_object_id (requester r)) rs"
  shows "aggregates_consistent (run (take n rs) init_state)"
proof -
  have "\<forall>r\<in>set (take n rs). is_object_id (requester r)"
    using assms by (auto simp: list_all_iff dest: in_set_takeD)
  from store_inv_run[OF store_inv_init this] show ?thesis by (simp add: store_inv_def)
qed

lemma demo_requests_run:
  "map (\<lambda>b. (b_id b, b_file_count b, b_total_size b))
     (buckets_collection (run demo_requests init_state)) = [(0, 1, 3)] \<and>
   map (\<lambda>f. (f_bucket_id f, f_filename f, f_size f))
     (files_collection (run demo_requests init_state)) = [(0, ''y'', 3)]"
  by (simp add: demo_requests_def run_def eval_defs)

theorem aggregates_invariant_witness:
  "list_all (\<lambda>r. is_object_id (requester r)) demo_requests \<and>
   aggregates_consistent (run (take 4 demo_requests) init_state) \<and>
   aggregates_consistent (run (take 2 demo_requests) init_state) \<and>
   map (\<lambda>b. (b_id b, b_file_count b, b_total_size b))
     (buckets_collection (run demo_requests init_state)) = [(0, 1, 3)] \<and>
   map (\<lambda>f. (f_bucket_id f, f_filename f, f_size f))
     (files_collection (run demo_requests init_state)) = [(0, ''y'', 3)]"
proof -
  have h: "list_all (\<lambda>r. is_object_id (requester r)) demo_requests"
    by (simp add: demo_requests_def is_object_id_alice)
  show ?thesis
    using h demo_requests_run aggregates_invariant[OF h, of 4] aggregates_invariant[OF h, of 2]
    by blast
qed

end
